theory Spec2Isabelle
  imports Main "HOL-Library.Sublist" "HOL-Library.Multiset"
begin

section \<open>Python strings\<close>

text \<open>
  A text is a \<^typ>\<open>string\<close>, one \<^typ>\<open>char\<close> for each code point, so that
  \<^term>\<open>length\<close> and every index count what Python's \<^verbatim>\<open>len\<close> and
  \<^verbatim>\<open>str.find\<close> count. A \<^typ>\<open>char\<close> has eight bits: the texts of this
  development are those whose code points are below 256. All markers and fallback
  strings of the program are ASCII.
\<close>

definition isspace :: "char \<Rightarrow> bool" where
  \<comment> \<open>the characters \<^verbatim>\<open>str.strip()\<close> removes, among the code points below 256:
      TAB, LF, VT, FF, CR, FS, GS, RS, US, SPACE, NEL (0x85) and NBSP (0xA0)\<close>
  "isspace c =
     (let n = (of_char c :: nat)
      in (9 \<le> n \<and> n \<le> 13) \<or> (28 \<le> n \<and> n \<le> 32) \<or> n = 133 \<or> n = 160)"

definition strip :: "string \<Rightarrow> string" where
  \<comment> \<open>\<^verbatim>\<open>s.strip()\<close>\<close>
  "strip s = rev (dropWhile isspace (rev (dropWhile isspace s)))"

definition slice :: "string \<Rightarrow> nat \<Rightarrow> nat \<Rightarrow> string" where
  \<comment> \<open>\<^verbatim>\<open>s[a:b]\<close> for indices \<open>a, b \<ge> 0\<close>: empty when \<open>b \<le> a\<close>, cut at the end of \<open>s\<close>\<close>
  "slice s a b = take (b - a) (drop a s)"

fun str_find :: "string \<Rightarrow> string \<Rightarrow> nat option" where
  \<comment> \<open>\<^verbatim>\<open>s.find(m)\<close>: the lowest index at which \<open>m\<close> occurs in \<open>s\<close>;
      \<open>None\<close> stands for Python's \<open>-1\<close>\<close>
  "str_find [] m = (if m = [] then Some 0 else None)"
| "str_find (c # cs) m =
     (if prefix m (c # cs) then Some 0 else map_option Suc (str_find cs m))"

definition contains :: "string \<Rightarrow> string \<Rightarrow> bool" where
  \<comment> \<open>\<^verbatim>\<open>m in s\<close> for strings\<close>
  "contains s m = (str_find s m \<noteq> None)"

definition lower_char :: "char \<Rightarrow> char" where
  \<comment> \<open>lower case of one code point below 256: A-Z, and the Latin-1 capitals
      0xC0-0xDE except the multiplication sign 0xD7\<close>
  "lower_char c =
     (let n = (of_char c :: nat)
      in if (65 \<le> n \<and> n \<le> 90) \<or> (192 \<le> n \<and> n \<le> 222 \<and> n \<noteq> 215)
         then char_of (n + 32) else c)"

definition lower :: "string \<Rightarrow> string" where
  \<comment> \<open>\<^verbatim>\<open>s.lower()\<close>\<close>
  "lower s = map lower_char s"

section \<open>The corrections splitter of \<^verbatim>\<open>analyze_user_text_enhanced\<close>\<close>

text \<open>
  Lines 319-354 of \<^verbatim>\<open>model13p.py\<close>. The section mapping is a Python dict from
  key to text, here a map \<^typ>\<open>string \<rightharpoonup> string\<close>. The loops are written over an
  arbitrary list of (marker, key) pairs; the program runs them on the fixed list
  \<open>sections_to_extract\<close>.
\<close>

type_synonym sections = "string \<rightharpoonup> string"

definition sections_to_extract :: "(string \<times> string) list" where
  "sections_to_extract =
     [(''SPELLING CORRECTIONS:'', ''spelling''),
      (''GRAMMAR CORRECTIONS:'', ''grammar''),
      (''COHERENCE CORRECTIONS:'', ''coherence''),
      (''STYLE CORRECTIONS:'', ''style''),
      (''ORDER CORRECTIONS:'', ''order''),
      (''PROPOSED CORRECTION:'', ''proposed'')]"

fun found_markers :: "(string \<times> string) list \<Rightarrow> string \<Rightarrow> (nat \<times> string \<times> string) list" where
  \<comment> \<open>the first loop: every marker that occurs, with the index of its first occurrence,
      in the order of the declared list\<close>
  "found_markers [] corrections = []"
| "found_markers ((marker, key) # rest) corrections =
     (case str_find corrections marker of
        None \<Rightarrow> found_markers rest corrections
      | Some pos \<Rightarrow> (pos, marker, key) # found_markers rest corrections)"

fun extract_content :: "string \<Rightarrow> (nat \<times> string \<times> string) list \<Rightarrow> sections \<Rightarrow> sections" where
  \<comment> \<open>the second loop, over the sorted list: a marker that has a successor is cut at the
      successor's position, the last one runs to the end of the text\<close>
  "extract_content corrections [] correction_sections = correction_sections"
| "extract_content corrections [(pos, marker, key)] correction_sections =
     correction_sections(key \<mapsto> strip (drop (pos + length marker) corrections))"
| "extract_content corrections ((pos, marker, key) # (end_idx, m', k') # rest) correction_sections =
     extract_content corrections ((end_idx, m', k') # rest)
       (correction_sections(key \<mapsto> strip (slice corrections (pos + length marker) end_idx)))"

fun fill_missing :: "(string \<times> string) list \<Rightarrow> string \<Rightarrow> sections \<Rightarrow> sections" where
  \<comment> \<open>the third loop: a key that is not in the dict yet gets the fallback\<close>
  "fill_missing [] fallback correction_sections = correction_sections"
| "fill_missing ((marker, key) # rest) fallback correction_sections =
     fill_missing rest fallback
       (case correction_sections key of
          None \<Rightarrow> correction_sections(key \<mapsto> fallback)
        | Some v \<Rightarrow> correction_sections)"

definition split_corrections :: "(string \<times> string) list \<Rightarrow> string \<Rightarrow> string \<Rightarrow> sections" where
  \<comment> \<open>\<^verbatim>\<open>found_markers.sort(key=lambda x: x[0])\<close> is a stable sort on the position,
      as \<^const>\<open>sort_key\<close> is\<close>
  "split_corrections markers fallback corrections =
     fill_missing markers fallback
       (extract_content corrections (sort_key fst (found_markers markers corrections)) Map.empty)"

definition correction_sections :: "string \<Rightarrow> sections" where
  "correction_sections corrections =
     split_corrections sections_to_extract ''No corrections needed.'' corrections"

section \<open>The evaluation splitters \<^verbatim>\<open>parse_evaluation_results\<close>\<close>

text \<open>
  The file defines \<^verbatim>\<open>parse_evaluation_results\<close> twice. The first definition
  (lines 584-613) binds the key of an absent marker to a fallback text; the second
  (lines 1323-1350) leaves such a key out of the dict, and the code that displays the
  result (lines 1380-1395) shows the fallback text for a key that is not in the dict.
  Both cut a section in the same way.
\<close>

definition section_markers :: "(string \<times> string) list" where
  "section_markers =
     [(''SPELLING EVALUATION:'', ''spelling''),
      (''GRAMMAR EVALUATION:'', ''grammar''),
      (''STYLE EVALUATION:'', ''style''),
      (''COHERENCE EVALUATION:'', ''coherence''),
      (''OVERALL EVALUATION:'', ''overall'')]"

definition next_markers :: "(string \<times> string) list \<Rightarrow> string \<Rightarrow> string \<Rightarrow> string list" where
  \<comment> \<open>\<^verbatim>\<open>[m for m, _ in section_markers if m != marker and m in evaluation_text]\<close>\<close>
  "next_markers markers marker evaluation_text =
     map fst (filter (\<lambda>(m, k). m \<noteq> marker \<and> contains evaluation_text m) markers)"

definition next_indices :: "string list \<Rightarrow> nat \<Rightarrow> string \<Rightarrow> nat list" where
  \<comment> \<open>\<^verbatim>\<open>[evaluation_text.find(m) for m in next_markers if evaluation_text.find(m) > start_idx]\<close>;
      an absent marker has index \<open>-1\<close> in Python, which is never above \<open>start_idx\<close>\<close>
  "next_indices nms start_idx evaluation_text =
     concat (map (\<lambda>m. case str_find evaluation_text m of
                         None \<Rightarrow> []
                       | Some i \<Rightarrow> if i > start_idx then [i] else []) nms)"

definition section_text :: "(string \<times> string) list \<Rightarrow> string \<Rightarrow> string \<Rightarrow> nat \<Rightarrow> string" where
  \<comment> \<open>the body of the branch \<^verbatim>\<open>if marker in evaluation_text\<close>, where \<open>pos\<close> is
      \<^verbatim>\<open>evaluation_text.find(marker)\<close>\<close>
  "section_text markers evaluation_text marker pos =
     (let start_idx = pos + length marker;
          nms = next_markers markers marker evaluation_text
      in if nms \<noteq> [] then
           (let idxs = next_indices nms start_idx evaluation_text
            in if idxs \<noteq> [] then strip (slice evaluation_text start_idx (min_list idxs))
               else strip (drop start_idx evaluation_text))
         else strip (drop start_idx evaluation_text))"

fun parse_sections :: "(string \<times> string) list \<Rightarrow> (string \<times> string) list \<Rightarrow> string \<Rightarrow> string \<Rightarrow> sections \<Rightarrow> sections" where
  \<comment> \<open>the loop of lines 596-611, with the rest of the list still to visit\<close>
  "parse_sections markers [] fallback evaluation_text sections = sections"
| "parse_sections markers ((marker, key) # rest) fallback evaluation_text sections =
     parse_sections markers rest fallback evaluation_text
       (case str_find evaluation_text marker of
          Some pos \<Rightarrow> sections(key \<mapsto> section_text markers evaluation_text marker pos)
        | None \<Rightarrow> sections(key \<mapsto> fallback))"

fun parse_sections_found :: "(string \<times> string) list \<Rightarrow> (string \<times> string) list \<Rightarrow> string \<Rightarrow> sections \<Rightarrow> sections" where
  \<comment> \<open>the loop of lines 1335-1348: no \<^verbatim>\<open>else\<close> branch\<close>
  "parse_sections_found markers [] evaluation_text sections = sections"
| "parse_sections_found markers ((marker, key) # rest) evaluation_text sections =
     parse_sections_found markers rest evaluation_text
       (case str_find evaluation_text marker of
          Some pos \<Rightarrow> sections(key \<mapsto> section_text markers evaluation_text marker pos)
        | None \<Rightarrow> sections)"

definition parse_evaluation_results :: "string \<Rightarrow> sections" where
  \<comment> \<open>lines 584-613\<close>
  "parse_evaluation_results evaluation_text =
     parse_sections section_markers section_markers
       ''No evaluation available for this section.'' evaluation_text Map.empty"

definition parse_evaluation_results_2 :: "string \<Rightarrow> sections" where
  \<comment> \<open>lines 1323-1350\<close>
  "parse_evaluation_results_2 evaluation_text =
     parse_sections_found section_markers section_markers evaluation_text Map.empty"

section \<open>The inference adapter \<^verbatim>\<open>call_bedrock_model\<close>\<close>

text \<open>
  Lines 183-254. A value of Python that the function handles is a JSON value: the parsed
  response of the service, the dict that becomes the request body, and the value the
  function returns, which is a string (\<open>JStr\<close>) or whatever the response holds in the
  field that is read. \<open>JFloat m e\<close> is the decimal literal \<open>m * 10^e\<close>.
\<close>

datatype json =
    JNull
  | JBool bool
  | JInt int
  | JFloat int int
  | JStr string
  | JList "json list"
  | JDict "(string \<times> json) list"

text \<open>
  The exceptions that the body of the \<^verbatim>\<open>try\<close> can raise. All of them are
  instances of \<^verbatim>\<open>Exception\<close>, the class that the handler catches; \<open>Raised\<close>
  is an exception of the client or of the JSON decoder, with a description.
\<close>

datatype py_exception = AttributeError | IndexError | KeyError | TypeError | Raised string

text \<open>
  What the function takes from outside the repository: the serialiser of the
  \<^verbatim>\<open>json\<close> module with and without \<^verbatim>\<open>indent=2\<close>, and
  \<^verbatim>\<open>str(e)\<close> of an exception. The client stands for
  \<^verbatim>\<open>invoke_model(modelId, body, ...)\<close> followed by
  \<^verbatim>\<open>json.loads(response.get('body').read().decode('utf-8'))\<close>: from the model
  identifier and the serialised body to the parsed response, or to the exception raised
  on the way.
\<close>

record py_env =
  dumps :: "json \<Rightarrow> string"
  dumps_indent :: "json \<Rightarrow> string"
  str_exception :: "py_exception \<Rightarrow> string"

type_synonym client = "string \<Rightarrow> string \<Rightarrow> py_exception + json"

type_synonym invocation = "string \<times> string"

definition py_get :: "json \<Rightarrow> string \<Rightarrow> json \<Rightarrow> py_exception + json" where
  \<comment> \<open>\<^verbatim>\<open>obj.get(key, dflt)\<close>: only a dict has the method\<close>
  "py_get obj key dflt =
     (case obj of
        JDict kvs \<Rightarrow> (case map_of kvs key of Some v \<Rightarrow> Inr v | None \<Rightarrow> Inr dflt)
      | _ \<Rightarrow> Inl AttributeError)"

fun py_item0 :: "json \<Rightarrow> py_exception + json" where
  \<comment> \<open>\<^verbatim>\<open>obj[0]\<close>; the keys of a parsed JSON object are strings, so \<open>0\<close> is no key\<close>
  "py_item0 (JList []) = Inl IndexError"
| "py_item0 (JList (x # xs)) = Inr x"
| "py_item0 (JStr []) = Inl IndexError"
| "py_item0 (JStr (c # cs)) = Inr (JStr [c])"
| "py_item0 (JDict kvs) = Inl KeyError"
| "py_item0 v = Inl TypeError"

fun py_in :: "string \<Rightarrow> json \<Rightarrow> py_exception + bool" where
  \<comment> \<open>\<^verbatim>\<open>key in obj\<close> for a string \<open>key\<close>: a key of a dict, an element of a list,
      a substring of a string; nothing else is iterable\<close>
  "py_in key (JDict kvs) = Inr (map_of kvs key \<noteq> None)"
| "py_in key (JList xs) = Inr (JStr key \<in> set xs)"
| "py_in key (JStr s) = Inr (contains s key)"
| "py_in key v = Inl TypeError"

fun py_getitem :: "json \<Rightarrow> string \<Rightarrow> py_exception + json" where
  \<comment> \<open>\<^verbatim>\<open>obj[key]\<close> for a string \<open>key\<close>\<close>
  "py_getitem (JDict kvs) key = (case map_of kvs key of Some v \<Rightarrow> Inr v | None \<Rightarrow> Inl KeyError)"
| "py_getitem v key = Inl TypeError"

definition warning_sign :: string where
  \<comment> \<open>the code points U+26A0 U+FE0F, which do not fit a \<^typ>\<open>char\<close>, as the bytes the
      source file stores for them\<close>
  "warning_sign = [CHR 0xE2, CHR 0x9A, CHR 0xA0, CHR 0xEF, CHR 0xB8, CHR 0x8F]"

definition not_available :: string where
  "not_available = warning_sign @
     '' Bedrock runtime client not available or no model selected. Please configure AWS properly.''"

definition error_calling_model :: "py_env \<Rightarrow> py_exception \<Rightarrow> string" where
  \<comment> \<open>the string built by the handler \<^verbatim>\<open>except Exception as e\<close>\<close>
  "error_calling_model env e =
     ''Error calling model: '' @ str_exception env e @
     ''\<newline>\<newline>Troubleshooting tips:\<newline>1. Check if you have access to the selected model\<newline>2. Verify your AWS credentials have proper permissions\<newline>3. Make sure Bedrock is available in your region''"

definition request_body :: "string \<Rightarrow> string \<Rightarrow> json" where
  \<comment> \<open>the dict that lines 190-225 hand to \<^verbatim>\<open>json.dumps\<close>\<close>
  "request_body prompt model_id =
     (if contains (lower model_id) ''claude'' then
        JDict [(''anthropic_version'', JStr ''bedrock-2023-05-31''),
               (''max_tokens'', JInt 2000),
               (''messages'', JList [JDict [(''role'', JStr ''user''), (''content'', JStr prompt)]])]
      else if contains (lower model_id) ''titan'' then
        JDict [(''inputText'', JStr prompt),
               (''textGenerationConfig'',
                  JDict [(''maxTokenCount'', JInt 2000),
                         (''temperature'', JFloat 7 (- 1)),
                         (''topP'', JFloat 9 (- 1))])]
      else if contains (lower model_id) ''llama'' then
        JDict [(''prompt'', JStr prompt),
               (''max_gen_len'', JInt 2000),
               (''temperature'', JFloat 7 (- 1)),
               (''top_p'', JFloat 9 (- 1))]
      else
        JDict [(''prompt'', JStr prompt), (''max_tokens'', JInt 2000)])"

definition bind_exc :: "py_exception + 'a \<Rightarrow> ('a \<Rightarrow> py_exception + 'b) \<Rightarrow> py_exception + 'b" where
  \<comment> \<open>sequencing: an exception ends the evaluation of the expression\<close>
  "bind_exc r f = (case r of Inl e \<Rightarrow> Inl e | Inr v \<Rightarrow> f v)"

definition extract_response :: "py_env \<Rightarrow> string \<Rightarrow> json \<Rightarrow> py_exception + json" where
  \<comment> \<open>lines 236-251: the value returned for a parsed response, or the exception raised\<close>
  "extract_response env model_id response_body =
     (if contains (lower model_id) ''claude'' then
        bind_exc (py_get response_body ''content'' (JList [JDict []])) (\<lambda>content.
        bind_exc (py_item0 content) (\<lambda>first.
        py_get first ''text'' (JStr ''No content returned'')))
      else if contains (lower model_id) ''titan'' then
        bind_exc (py_get response_body ''results'' (JList [JDict []])) (\<lambda>results.
        bind_exc (py_item0 results) (\<lambda>first.
        py_get first ''outputText'' (JStr ''No content returned'')))
      else
        bind_exc (py_in ''generated_text'' response_body) (\<lambda>has_generated_text.
        if has_generated_text then py_getitem response_body ''generated_text''
        else
          bind_exc (py_in ''completion'' response_body) (\<lambda>has_completion.
          if has_completion then py_getitem response_body ''completion''
          else Inr (JStr (''Response received but format unknown: '' @
                          dumps_indent env response_body)))))"

definition call_bedrock_model ::
  "py_env \<Rightarrow> client option \<Rightarrow> string \<Rightarrow> string option \<Rightarrow> json \<times> invocation list" where
  \<comment> \<open>the value returned, and the invocations of the model made on the way. The global
      \<^verbatim>\<open>bedrock_runtime\<close> is a client or \<^verbatim>\<open>None\<close>, \<^verbatim>\<open>model_id\<close> a
      string or \<^verbatim>\<open>None\<close>; \<^verbatim>\<open>not model_id\<close> holds for \<^verbatim>\<open>None\<close>
      and for the empty string\<close>
  "call_bedrock_model env bedrock_runtime prompt model_id =
     (case (bedrock_runtime, model_id) of
        (Some invoke_model, Some mid) \<Rightarrow>
          if mid = [] then (JStr not_available, [])
          else
            (let body = dumps env (request_body prompt mid);
                 outcome = bind_exc (invoke_model mid body) (extract_response env mid)
             in (case outcome of
                   Inl e \<Rightarrow> JStr (error_calling_model env e)
                 | Inr v \<Rightarrow> v,
                 [(mid, body)]))
      | _ \<Rightarrow> (JStr not_available, []))"

section \<open>Notions used in the statements\<close>

definition prefix_free :: "string list \<Rightarrow> bool" where
  \<comment> \<open>no marker is a proper prefix of another one\<close>
  "prefix_free ms = (\<forall>a\<in>set ms. \<forall>b\<in>set ms. prefix a b \<longrightarrow> a = b)"

definition overlap_free :: "string list \<Rightarrow> bool" where
  \<comment> \<open>no marker begins inside an occurrence of a marker, behind its first character\<close>
  "overlap_free ms =
     list_all (\<lambda>a. list_all (\<lambda>b.
        list_all (\<lambda>i. \<not> prefix (drop i a) b \<and> \<not> prefix b (drop i a)) [1..<length a]) ms) ms"

definition first_positions :: "(string \<times> string) list \<Rightarrow> string \<Rightarrow> nat list" where
  \<comment> \<open>the index of the first occurrence of every marker that occurs\<close>
  "first_positions markers text = map fst (found_markers markers text)"

definition next_start :: "(string \<times> string) list \<Rightarrow> string \<Rightarrow> nat \<Rightarrow> nat" where
  \<comment> \<open>the start of the next found marker after position \<open>pos\<close> in ascending order of first
      occurrence, or the end of the text when there is none\<close>
  "next_start markers text pos =
     (let later = filter (\<lambda>q. pos < q) (first_positions markers text)
      in if later = [] then length text else min_list later)"

definition present :: "(string \<times> string) list \<Rightarrow> string \<Rightarrow> (string \<times> string) list" where
  \<comment> \<open>the declared list without the markers that do not occur in the text\<close>
  "present markers text = filter (\<lambda>(m, k). contains text m) markers"

fun subvalues :: "json \<Rightarrow> json list" where
  \<comment> \<open>a JSON value and all the values nested in it\<close>
  "subvalues (JList xs) = JList xs # concat (map subvalues xs)"
| "subvalues (JDict kvs) = JDict kvs # concat (map (\<lambda>(k, v). subvalues v) kvs)"
| "subvalues v = [v]"

fun is_str :: "json \<Rightarrow> bool" where
  "is_str (JStr s) = True"
| "is_str v = False"

text \<open>
  A concrete environment and two concrete clients, for running the adapter: a client
  that answers every invocation with a given parsed response, and one that raises.
\<close>

definition sample_env :: py_env where
  "sample_env = \<lparr>dumps = (\<lambda>j. ''<body>''), dumps_indent = (\<lambda>j. ''<response>''),
                  str_exception = (\<lambda>e. ''<exception>'')\<rparr>"

definition replies :: "json \<Rightarrow> client" where
  "replies r = (\<lambda>model_id body. Inr r)"

definition fails :: "py_exception \<Rightarrow> client" where
  "fails e = (\<lambda>model_id body. Inl e)"

section \<open>Facts about the string primitives and the loops\<close>


lemma str_find_Some: "str_find t m = Some p \<Longrightarrow> p \<le> length t \<and> prefix m (drop p t)"
  by (induction t arbitrary: p) (auto split: if_splits)

lemma str_find_least: "str_find t m = Some p \<Longrightarrow> j < p \<Longrightarrow> \<not> prefix m (drop j t)"
proof (induction t arbitrary: p j)
  case Nil
  then show ?case by (simp split: if_splits)
next
  case (Cons c cs)
  then show ?case by (cases j) (auto split: if_splits)
qed

lemma str_find_None: "str_find t m = None \<Longrightarrow> \<not> prefix m (drop j t)"
proof (induction t arbitrary: j)
  case Nil
  then show ?case by (simp split: if_splits)
next
  case (Cons c cs)
  then show ?case by (cases j) (auto split: if_splits)
qed

lemma str_find_empty_text: "m \<noteq> [] \<Longrightarrow> str_find [] m = None"
  by simp

lemma str_find_same_pos:
  assumes "str_find t a = Some p" "str_find t b = Some p"
  shows "prefix a b \<or> prefix b a"
  using str_find_Some [OF assms(1)] str_find_Some [OF assms(2)] prefix_same_cases by blast

lemma found_markers_iff:
  "(p, m, k) \<in> set (found_markers ms t) \<longleftrightarrow> (m, k) \<in> set ms \<and> str_find t m = Some p"
  by (induction ms t rule: found_markers.induct) (auto split: option.splits)

lemma found_markers_keys:
  "map (snd \<circ> snd) (found_markers ms t) = map snd (filter (\<lambda>(m, k). contains t m) ms)"
  by (induction ms t rule: found_markers.induct) (auto simp: contains_def split: option.splits)

lemma found_markers_distinct_keys:
  "distinct (map snd ms) \<Longrightarrow> distinct (map (snd \<circ> snd) (found_markers ms t))"
  by (simp add: found_markers_keys distinct_map_filter)

lemma found_markers_distinct_pos:
  assumes "distinct (map fst ms)" "prefix_free (map fst ms)"
  shows "distinct (map fst (found_markers ms t))"
  using assms
proof (induction ms t rule: found_markers.induct)
  case (1 t)
  then show ?case by simp
next
  case (2 marker key rest t)
  have pf: "prefix_free (map fst rest)"
    using "2.prems"(2) by (auto simp: prefix_free_def)
  have d: "distinct (map fst rest)" using "2.prems"(1) by simp
  show ?case
  proof (cases "str_find t marker")
    case None
    then show ?thesis using 2 pf d by simp
  next
    case (Some pos)
    have "pos \<notin> fst ` set (found_markers rest t)"
    proof
      assume "pos \<in> fst ` set (found_markers rest t)"
      then obtain m k where mk: "(m, k) \<in> set rest" "str_find t m = Some pos"
        by (auto simp: found_markers_iff)
      then have "prefix marker m \<or> prefix m marker"
        using Some str_find_same_pos by blast
      moreover have "m \<in> set (map fst ((marker, key) # rest))" using mk(1) by force
      ultimately have "m = marker"
        using "2.prems"(2) unfolding prefix_free_def by (metis list.set_intros(1) list.simps(9) fst_conv)
      then show False using mk(1) "2.prems"(1) by force
    qed
    then show ?thesis using 2 pf d Some by simp
  qed
qed

lemma extract_content_other:
  "k \<notin> (snd \<circ> snd) ` set fs \<Longrightarrow> extract_content t fs cs k = cs k"
  by (induction t fs cs rule: extract_content.induct) auto

lemma extract_content_mid:
  assumes "distinct (map (snd \<circ> snd) (as @ (p, m, k) # (q, m', k') # bs))"
  shows "extract_content t (as @ (p, m, k) # (q, m', k') # bs) cs k
           = Some (strip (slice t (p + length m) q))"
  using assms
proof (induction as arbitrary: cs)
  case Nil
  then show ?case by (simp add: extract_content_other)
next
  case (Cons a as)
  obtain p0 m0 k0 where a: "a = (p0, m0, k0)" by (cases a)
  show ?case
  proof (cases as)
    case Nil
    then show ?thesis using Cons a by simp
  next
    case (Cons b as')
    obtain p1 m1 k1 where b: "b = (p1, m1, k1)" by (cases b)
    show ?thesis using Cons.IH Cons.prems a b Cons by simp
  qed
qed

lemma extract_content_last:
  assumes "distinct (map (snd \<circ> snd) (as @ [(p, m, k)]))"
  shows "extract_content t (as @ [(p, m, k)]) cs k = Some (strip (drop (p + length m) t))"
  using assms
proof (induction as arbitrary: cs)
  case Nil
  then show ?case by simp
next
  case (Cons a as)
  obtain p0 m0 k0 where a: "a = (p0, m0, k0)" by (cases a)
  show ?case
  proof (cases as)
    case Nil
    then show ?thesis using Cons a by simp
  next
    case (Cons b as')
    obtain p1 m1 k1 where b: "b = (p1, m1, k1)" by (cases b)
    show ?thesis using Cons.IH Cons.prems a b Cons by simp
  qed
qed

lemma extract_content_dom:
  "dom (extract_content t fs cs) = dom cs \<union> (snd \<circ> snd) ` set fs"
  by (induction t fs cs rule: extract_content.induct) (auto simp: fun_upd_def dom_def split: if_splits)

lemma fill_missing_apply:
  "fill_missing ms fb cs k =
     (case cs k of Some v \<Rightarrow> Some v | None \<Rightarrow> if k \<in> snd ` set ms then Some fb else None)"
  by (induction ms fb cs rule: fill_missing.induct) (auto split: option.splits)

subsection \<open>The corrections splitter cuts at the next first occurrence\<close>

lemma distinct_keys_unique:
  "distinct (map snd ms) \<Longrightarrow> (a, k) \<in> set ms \<Longrightarrow> (b, k) \<in> set ms \<Longrightarrow> a = b"
  by (induction ms) (auto simp: image_iff)

lemma sorted_keys_distinct:
  assumes "distinct (map snd ms)"
  shows "distinct (map (snd \<circ> snd) (sort_key fst (found_markers ms t)))"
proof -
  have "mset (map (snd \<circ> snd) (sort_key fst (found_markers ms t)))
          = mset (map (snd \<circ> snd) (found_markers ms t))"
    by (metis mset_map mset_sort)
  then show ?thesis
    using found_markers_distinct_keys [OF assms] by (metis mset_eq_imp_distinct_iff)
qed

lemma sorted_positions_distinct:
  assumes "distinct (map fst ms)" "prefix_free (map fst ms)"
  shows "distinct (map fst (sort_key fst (found_markers ms t)))"
proof -
  have "mset (map fst (sort_key fst (found_markers ms t))) = mset (map fst (found_markers ms t))"
    by (metis mset_map mset_sort)
  then show ?thesis
    using found_markers_distinct_pos [OF assms] by (metis mset_eq_imp_distinct_iff)
qed

lemma slice_to_end: "slice t s (length t) = drop s t"
  by (simp add: slice_def)

lemma next_start_last:
  assumes "\<forall>q\<in>set (first_positions ms t). q \<le> p"
  shows "next_start ms t p = length t"
proof -
  have "filter (\<lambda>q. p < q) (first_positions ms t) = []"
    using assms by (auto simp: filter_empty_conv)
  then show ?thesis by (simp add: next_start_def)
qed

lemma next_start_succ:
  assumes "q \<in> set (first_positions ms t)" "p < q"
    and "\<forall>x\<in>set (first_positions ms t). x \<le> p \<or> q \<le> x"
  shows "next_start ms t p = q"
proof -
  let ?later = "filter (\<lambda>q. p < q) (first_positions ms t)"
  have q: "q \<in> set ?later" using assms(1,2) by simp
  have ne: "?later \<noteq> []" using q by (metis empty_iff list.set(1))
  have "Min (set ?later) = q"
  proof (rule Min_eqI)
    show "finite (set ?later)" by simp
    show "\<And>y. y \<in> set ?later \<Longrightarrow> q \<le> y" using assms(3) by auto
    show "q \<in> set ?later" by (rule q)
  qed
  then show ?thesis using ne by (simp add: next_start_def min_list_Min)
qed

lemma next_start_cases:
  "next_start ms t p = length t \<or>
   (next_start ms t p \<in> set (first_positions ms t) \<and> p < next_start ms t p)"
proof -
  let ?later = "filter (\<lambda>q. p < q) (first_positions ms t)"
  show ?thesis
  proof (cases "?later = []")
    case True
    then show ?thesis by (simp add: next_start_def)
  next
    case False
    then have "min_list ?later \<in> set ?later"
      by (metis min_list_Min Min_in List.finite_set set_empty)
    then show ?thesis using False by (simp add: next_start_def)
  qed
qed

lemma split_corrections_found:
  assumes keys: "distinct (map snd ms)"
    and marks: "distinct (map fst ms)" "prefix_free (map fst ms)"
    and mk: "(m, k) \<in> set ms" and pos: "str_find t m = Some p"
  shows "split_corrections ms fb t k
           = Some (strip (slice t (p + length m) (next_start ms t p)))"
proof -
  define fs where "fs = sort_key fst (found_markers ms t)"
  have dk: "distinct (map (snd \<circ> snd) fs)"
    unfolding fs_def by (rule sorted_keys_distinct [OF keys])
  have dp: "distinct (map fst fs)"
    unfolding fs_def by (rule sorted_positions_distinct [OF marks])
  have so: "sorted (map fst fs)" unfolding fs_def by (rule sorted_sort_key)
  have fp: "set (first_positions ms t) = fst ` set fs"
    by (simp add: first_positions_def fs_def)
  have "(p, m, k) \<in> set fs" using mk pos by (simp add: found_markers_iff fs_def)
  then obtain as rest where fs: "fs = as @ (p, m, k) # rest"
    by (meson split_list)
  have ex: "extract_content t fs Map.empty k
              = Some (strip (slice t (p + length m) (next_start ms t p)))"
  proof (cases rest)
    case Nil
    have "\<forall>q\<in>fst ` set fs. q \<le> p"
      using so unfolding fs Nil by (auto simp: sorted_append)
    then have "\<forall>q\<in>set (first_positions ms t). q \<le> p" unfolding fp .
    then have "next_start ms t p = length t" by (rule next_start_last)
    moreover have "extract_content t fs Map.empty k = Some (strip (drop (p + length m) t))"
      using dk unfolding fs Nil by (rule extract_content_last)
    ultimately show ?thesis by (simp add: slice_to_end)
  next
    case (Cons b bs)
    obtain q m' k' where b: "b = (q, m', k')" by (cases b)
    have fs': "fs = as @ (p, m, k) # (q, m', k') # bs" using fs Cons b by simp
    have "p \<le> q" using so unfolding fs' by (simp add: sorted_append)
    moreover have "p \<noteq> q" using dp unfolding fs' by simp
    ultimately have pq: "p < q" by simp
    have qin: "q \<in> set (first_positions ms t)" unfolding fp fs' by force
    have "\<forall>x\<in>fst ` set fs. x \<le> p \<or> q \<le> x"
      using so unfolding fs' by (auto simp: sorted_append)
    then have "\<forall>x\<in>set (first_positions ms t). x \<le> p \<or> q \<le> x" unfolding fp .
    then have "next_start ms t p = q" using qin pq next_start_succ by blast
    moreover have "extract_content t fs Map.empty k = Some (strip (slice t (p + length m) q))"
      using dk unfolding fs' by (rule extract_content_mid)
    ultimately show ?thesis by simp
  qed
  show ?thesis
    unfolding split_corrections_def fs_def [symmetric] by (simp add: fill_missing_apply ex)
qed

lemma found_keys_subset: "(snd \<circ> snd) ` set (found_markers ms t) \<subseteq> snd ` set ms"
proof
  fix k assume "k \<in> (snd \<circ> snd) ` set (found_markers ms t)"
  then obtain p m where "(p, m, k) \<in> set (found_markers ms t)" by force
  then have "(m, k) \<in> set ms" by (simp add: found_markers_iff)
  then show "k \<in> snd ` set ms" by force
qed

lemma extracted_None:
  assumes "(m, k) \<in> set ms" "str_find t m = None" "distinct (map snd ms)"
  shows "extract_content t (sort_key fst (found_markers ms t)) Map.empty k = None"
proof -
  have "k \<notin> (snd \<circ> snd) ` set (found_markers ms t)"
  proof
    assume "k \<in> (snd \<circ> snd) ` set (found_markers ms t)"
    then obtain p' m' where f: "(p', m', k) \<in> set (found_markers ms t)" by force
    then have m': "(m', k) \<in> set ms" and s: "str_find t m' = Some p'"
      by (simp_all add: found_markers_iff)
    have "m' = m" using distinct_keys_unique [OF assms(3) m' assms(1)] .
    then show False using assms(2) s by simp
  qed
  then have "k \<notin> (snd \<circ> snd) ` set (sort_key fst (found_markers ms t))" by simp
  then have "extract_content t (sort_key fst (found_markers ms t)) Map.empty k = Map.empty k"
    by (rule extract_content_other)
  then show ?thesis by simp
qed

lemma split_corrections_absent:
  assumes "(m, k) \<in> set ms" "str_find t m = None" "distinct (map snd ms)"
  shows "split_corrections ms fb t k = Some fb"
proof -
  have "k \<in> snd ` set ms" using assms(1) by force
  then show ?thesis
    unfolding split_corrections_def
    by (simp add: fill_missing_apply extracted_None [OF assms])
qed

lemma fill_missing_dom: "dom (fill_missing ms fb cs) = dom cs \<union> snd ` set ms"
proof -
  have "\<And>k. (fill_missing ms fb cs k \<noteq> None) = (k \<in> dom cs \<union> snd ` set ms)"
    by (simp add: fill_missing_apply dom_def split: option.split)
  then show ?thesis unfolding dom_def by blast
qed

lemma split_corrections_dom: "dom (split_corrections ms fb t) = snd ` set ms"
proof -
  have "dom (split_corrections ms fb t)
          = (snd \<circ> snd) ` set (found_markers ms t) \<union> snd ` set ms"
    unfolding split_corrections_def by (simp add: fill_missing_dom extract_content_dom)
  then show ?thesis using found_keys_subset [of ms t] by blast
qed

subsection \<open>The evaluation splitters cut at a first occurrence\<close>

lemma next_markers_subset:
  "m' \<in> set (next_markers ms m t) \<Longrightarrow> m' \<in> fst ` set ms \<and> m' \<noteq> m \<and> str_find t m' \<noteq> None"
  by (auto simp: next_markers_def contains_def)

lemma next_indices_iff:
  "i \<in> set (next_indices nms s t) \<longleftrightarrow> (\<exists>m'\<in>set nms. str_find t m' = Some i \<and> s < i)"
proof
  assume "i \<in> set (next_indices nms s t)"
  then obtain m' where "m' \<in> set nms"
    and "i \<in> set (case str_find t m' of None \<Rightarrow> [] | Some j \<Rightarrow> if s < j then [j] else [])"
    by (auto simp: next_indices_def)
  then show "\<exists>m'\<in>set nms. str_find t m' = Some i \<and> s < i"
    by (cases "str_find t m'") (auto split: if_splits)
next
  assume "\<exists>m'\<in>set nms. str_find t m' = Some i \<and> s < i"
  then obtain m' where "m' \<in> set nms" "str_find t m' = Some i" "s < i" by blast
  then show "i \<in> set (next_indices nms s t)"
    by (force simp: next_indices_def)
qed

lemma first_positions_iff:
  "q \<in> set (first_positions ms t) \<longleftrightarrow> (\<exists>m\<in>fst ` set ms. str_find t m = Some q)"
proof
  assume "q \<in> set (first_positions ms t)"
  then obtain m k where "(q, m, k) \<in> set (found_markers ms t)"
    by (auto simp: first_positions_def)
  then have "(m, k) \<in> set ms" "str_find t m = Some q" by (simp_all add: found_markers_iff)
  then show "\<exists>m\<in>fst ` set ms. str_find t m = Some q" by force
next
  assume "\<exists>m\<in>fst ` set ms. str_find t m = Some q"
  then obtain m k where "(m, k) \<in> set ms" "str_find t m = Some q" by auto
  then have "(q, m, k) \<in> set (found_markers ms t)" by (simp add: found_markers_iff)
  then show "q \<in> set (first_positions ms t)" by (force simp: first_positions_def)
qed

lemma section_text_cut:
  "\<exists>e. section_text ms t m p = strip (slice t (p + length m) e) \<and>
       (e = length t \<or> (e \<in> set (first_positions ms t) \<and> p + length m < e))"
proof -
  let ?s = "p + length m"
  let ?idxs = "next_indices (next_markers ms m t) ?s t"
  show ?thesis
  proof (cases "next_markers ms m t \<noteq> [] \<and> ?idxs \<noteq> []")
    case True
    then have "min_list ?idxs \<in> set ?idxs"
      by (metis min_list_Min Min_in List.finite_set set_empty)
    then obtain m' where "m' \<in> set (next_markers ms m t)"
      and "str_find t m' = Some (min_list ?idxs)" and "?s < min_list ?idxs"
      unfolding next_indices_iff by blast
    then have "min_list ?idxs \<in> set (first_positions ms t)" "?s < min_list ?idxs"
      using next_markers_subset first_positions_iff by blast+
    moreover have "section_text ms t m p = strip (slice t ?s (min_list ?idxs))"
      using True by (simp add: section_text_def Let_def)
    ultimately show ?thesis by blast
  next
    case False
    then have "section_text ms t m p = strip (slice t ?s (length t))"
      by (auto simp: section_text_def Let_def slice_to_end)
    then show ?thesis by blast
  qed
qed

lemma parse_sections_other:
  "k \<notin> snd ` set rest \<Longrightarrow> parse_sections ms rest fb t secs k = secs k"
  by (induction ms rest fb t secs rule: parse_sections.induct) (auto split: option.splits)

lemma parse_sections_apply:
  "distinct (map snd rest) \<Longrightarrow> (m, k) \<in> set rest \<Longrightarrow>
   parse_sections ms rest fb t secs k =
     Some (case str_find t m of Some p \<Rightarrow> section_text ms t m p | None \<Rightarrow> fb)"
proof (induction ms rest fb t secs rule: parse_sections.induct)
  case (1 ms fb t secs)
  then show ?case by simp
next
  case (2 ms marker key rest fb t secs)
  show ?case
  proof (cases "(m, k) = (marker, key)")
    case True
    then have "k \<notin> snd ` set rest" using "2.prems"(1) by auto
    then show ?thesis using True by (simp add: parse_sections_other split: option.splits)
  next
    case False
    then have "(m, k) \<in> set rest" using "2.prems"(2) by auto
    then show ?thesis using "2.IH" "2.prems"(1) by simp
  qed
qed

lemma parse_sections_dom:
  "dom (parse_sections ms rest fb t secs) = dom secs \<union> snd ` set rest"
  by (induction ms rest fb t secs rule: parse_sections.induct)
     (auto simp: fun_upd_def dom_def split: if_splits option.splits)

lemma parse_sections_found_other:
  "k \<notin> snd ` set rest \<Longrightarrow> parse_sections_found ms rest t secs k = secs k"
  by (induction ms rest t secs rule: parse_sections_found.induct) (auto split: option.splits)

lemma parse_sections_found_apply:
  "distinct (map snd rest) \<Longrightarrow> (m, k) \<in> set rest \<Longrightarrow>
   parse_sections_found ms rest t secs k =
     (case str_find t m of Some p \<Rightarrow> Some (section_text ms t m p) | None \<Rightarrow> secs k)"
proof (induction ms rest t secs rule: parse_sections_found.induct)
  case (1 ms t secs)
  then show ?case by simp
next
  case (2 ms marker key rest t secs)
  show ?case
  proof (cases "(m, k) = (marker, key)")
    case True
    then have "k \<notin> snd ` set rest" using "2.prems"(1) by auto
    then show ?thesis using True by (simp add: parse_sections_found_other split: option.splits)
  next
    case False
    then have in_rest: "(m, k) \<in> set rest" using "2.prems"(2) by auto
    then have "k \<noteq> key" using "2.prems"(1) by force
    then show ?thesis using "2.IH" "2.prems"(1) in_rest by (simp split: option.splits)
  qed
qed

lemma parse_sections_found_dom:
  "dom (parse_sections_found ms rest t secs) \<subseteq> dom secs \<union> snd ` set rest"
  by (induction ms rest t secs rule: parse_sections_found.induct)
     (auto simp: fun_upd_def dom_def split: if_splits option.splits)

subsection \<open>The declared marker lists\<close>

lemma sections_to_extract_keys: "distinct (map snd sections_to_extract)"
  by (simp add: sections_to_extract_def)

lemma sections_to_extract_markers: "distinct (map fst sections_to_extract)"
  by (simp add: sections_to_extract_def)

lemma sections_to_extract_prefix_free: "prefix_free (map fst sections_to_extract)"
  by (simp add: sections_to_extract_def prefix_free_def)

lemma section_markers_keys: "distinct (map snd section_markers)"
  by (simp add: section_markers_def)

lemma found_markers_present: "found_markers (present ms t) t = found_markers ms t"
  by (induction ms t rule: found_markers.induct)
     (auto simp: present_def contains_def split: option.splits)

lemma next_markers_present: "next_markers (present ms t) m t = next_markers ms m t"
  unfolding next_markers_def present_def filter_filter
  by (rule arg_cong [where f = "map fst"], rule filter_cong) auto

lemma section_text_present: "section_text (present ms t) t m p = section_text ms t m p"
  by (simp add: section_text_def next_markers_present)

lemma present_keys: "distinct (map snd ms) \<Longrightarrow> distinct (map snd (present ms t))"
  by (simp add: present_def distinct_map_filter)

lemma present_iff: "(m, k) \<in> set (present ms t) \<longleftrightarrow> (m, k) \<in> set ms \<and> str_find t m \<noteq> None"
  by (auto simp: present_def contains_def)

lemma split_corrections_present:
  assumes "(m, k) \<in> set ms" "str_find t m = Some p"
  shows "split_corrections ms fb t k = split_corrections (present ms t) fb t k"
proof -
  let ?e = "extract_content t (sort_key fst (found_markers ms t)) Map.empty"
  have "(p, m, k) \<in> set (found_markers ms t)" using assms by (simp add: found_markers_iff)
  then have "k \<in> (snd \<circ> snd) ` set (found_markers ms t)" by force
  then have "k \<in> dom ?e" by (simp add: extract_content_dom)
  then obtain v where "?e k = Some v" by blast
  then show ?thesis
    by (simp add: split_corrections_def found_markers_present fill_missing_apply)
qed

lemma parse_sections_present:
  assumes "distinct (map snd ms)" "(m, k) \<in> set ms" "str_find t m = Some p"
  shows "parse_sections ms ms fb t Map.empty k
           = parse_sections (present ms t) (present ms t) fb t Map.empty k"
proof -
  have "(m, k) \<in> set (present ms t)" using assms(2,3) by (simp add: present_iff)
  then show ?thesis
    using parse_sections_apply [OF assms(1,2)]
      parse_sections_apply [OF present_keys [OF assms(1)], of m k t "present ms t"]
    by (simp add: assms(3) section_text_present)
qed

lemma parse_sections_found_present:
  assumes "distinct (map snd ms)" "(m, k) \<in> set ms" "str_find t m = Some p"
  shows "parse_sections_found ms ms t Map.empty k
           = parse_sections_found (present ms t) (present ms t) t Map.empty k"
proof -
  have "(m, k) \<in> set (present ms t)" using assms(2,3) by (simp add: present_iff)
  then show ?thesis
    using parse_sections_found_apply [OF assms(1,2)]
      parse_sections_found_apply [OF present_keys [OF assms(1)], of m k t "present ms t"]
    by (simp add: assms(3) section_text_present)
qed

lemma correction_sections_slice:
  assumes "(m, k) \<in> set sections_to_extract" "str_find t m = Some p"
  shows "correction_sections t k
           = Some (strip (slice t (p + length m) (next_start sections_to_extract t p)))"
  unfolding correction_sections_def
  using sections_to_extract_keys sections_to_extract_markers sections_to_extract_prefix_free assms
  by (rule split_corrections_found)

lemma parse_evaluation_results_found:
  assumes "(m, k) \<in> set section_markers" "str_find t m = Some p"
  shows "parse_evaluation_results t k = Some (section_text section_markers t m p)"
  unfolding parse_evaluation_results_def
  using parse_sections_apply [OF section_markers_keys assms(1)] assms(2) by simp

lemma parse_evaluation_results_2_found:
  assumes "(m, k) \<in> set section_markers" "str_find t m = Some p"
  shows "parse_evaluation_results_2 t k = Some (section_text section_markers t m p)"
  unfolding parse_evaluation_results_2_def
  using parse_sections_found_apply [OF section_markers_keys assms(1)] assms(2) by simp

subsection \<open>Where the evaluation splitters agree with the corrections splitter\<close>

text \<open>
  A marker of the evaluation list never begins inside an occurrence of another one. So
  the evaluation splitters cut a section at the next found marker, as the corrections
  splitter does, unless a marker has its first occurrence exactly at the end of the
  occurrence of the current marker.
\<close>

lemma section_markers_overlap_free: "overlap_free (map fst section_markers)"
  by code_simp

lemma occurrences_overlap:
  assumes a: "str_find t a = Some p" and b: "str_find t b = Some q"
    and "p < q" "q < p + length a"
  shows "prefix (drop (q - p) a) b \<or> prefix b (drop (q - p) a)"
proof -
  obtain u where u: "drop p t = a @ u"
    using str_find_Some [OF a] by (auto simp: prefix_def)
  have "drop q t = drop (q - p) (drop p t)" using assms(3) by simp
  also have "\<dots> = drop (q - p) a @ u" using assms(3,4) by (simp add: u)
  finally have "prefix (drop (q - p) a) (drop q t)" by simp
  moreover have "prefix b (drop q t)" using str_find_Some [OF b] by simp
  ultimately show ?thesis by (rule prefix_same_cases)
qed

lemma no_overlapping_first_occurrence:
  assumes "overlap_free (map fst ms)" "(a, ka) \<in> set ms" "(b, kb) \<in> set ms"
    and "str_find t a = Some p" "str_find t b = Some q" "p < q"
  shows "p + length a \<le> q"
proof (rule ccontr)
  assume "\<not> p + length a \<le> q"
  then have lt: "q < p + length a" by simp
  then have i: "q - p \<in> set [1..<length a]" using assms(6) by auto
  have "a \<in> set (map fst ms)" "b \<in> set (map fst ms)" using assms(2,3) by force+
  then have "\<not> prefix (drop (q - p) a) b \<and> \<not> prefix b (drop (q - p) a)"
    using assms(1) i unfolding overlap_free_def list_all_iff by blast
  then show False using occurrences_overlap [OF assms(4,5,6) lt] by blast
qed

lemma section_text_next_start:
  assumes of: "overlap_free (map fst ms)"
    and mk: "(m, k) \<in> set ms" and pos: "str_find t m = Some p"
    and gap: "p + length m \<notin> set (first_positions ms t)"
  shows "section_text ms t m p = strip (slice t (p + length m) (next_start ms t p))"
proof -
  let ?s = "p + length m"
  let ?idxs = "next_indices (next_markers ms m t) ?s t"
  let ?later = "filter (\<lambda>q. p < q) (first_positions ms t)"
  have eq: "set ?idxs = set ?later"
  proof (intro equalityI subsetI)
    fix q assume "q \<in> set ?idxs"
    then obtain m' where "m' \<in> set (next_markers ms m t)" "str_find t m' = Some q" "?s < q"
      unfolding next_indices_iff by blast
    then have "q \<in> set (first_positions ms t)" "p < q"
      using next_markers_subset first_positions_iff by (blast, simp)
    then show "q \<in> set ?later" by simp
  next
    fix q assume "q \<in> set ?later"
    then have q: "q \<in> set (first_positions ms t)" "p < q" by simp_all
    then obtain m' k' where m': "(m', k') \<in> set ms" "str_find t m' = Some q"
      unfolding first_positions_iff by force
    have "m' \<noteq> m" using m'(2) pos q(2) by auto
    moreover have "contains t m'" using m'(2) by (simp add: contains_def)
    ultimately have nm: "m' \<in> set (next_markers ms m t)"
      using m'(1) by (force simp: next_markers_def)
    have "?s \<le> q" using no_overlapping_first_occurrence [OF of mk m'(1) pos m'(2) q(2)] .
    moreover have "?s \<noteq> q" using gap q(1) by blast
    ultimately have "?s < q" by simp
    then show "q \<in> set ?idxs" using nm m'(2) unfolding next_indices_iff by blast
  qed
  show ?thesis
  proof (cases "?idxs = []")
    case True
    then have "?later = []" using eq by (metis set_empty)
    then have "next_start ms t p = length t" by (simp add: next_start_def)
    moreover have "section_text ms t m p = strip (drop ?s t)"
      using True by (simp add: section_text_def Let_def)
    ultimately show ?thesis by (simp add: slice_to_end)
  next
    case False
    then have l: "?later \<noteq> []" using eq by (metis set_empty)
    have nm: "next_markers ms m t \<noteq> []"
      using False by (auto simp: next_indices_def)
    have "min_list ?idxs = min_list ?later"
      using False l eq by (simp add: min_list_Min)
    then have "next_start ms t p = min_list ?idxs" using l by (simp add: next_start_def)
    moreover have "section_text ms t m p = strip (slice t ?s (min_list ?idxs))"
      using False nm by (simp add: section_text_def Let_def)
    ultimately show ?thesis by simp
  qed
qed

lemma parse_evaluation_results_slice:
  assumes "(m, k) \<in> set section_markers" "str_find t m = Some p"
    and "p + length m \<notin> set (first_positions section_markers t)"
  shows "parse_evaluation_results t k
           = Some (strip (slice t (p + length m) (next_start section_markers t p)))"
    and "parse_evaluation_results_2 t k
           = Some (strip (slice t (p + length m) (next_start section_markers t p)))"
  using parse_evaluation_results_found [OF assms(1,2)]
    parse_evaluation_results_2_found [OF assms(1,2)]
    section_text_next_start [OF section_markers_overlap_free assms]
  by simp_all

section \<open>The section mappings\<close>

text \<open>
  Claim C8. For every input text, every key of the section mapping that a splitter
  produces belongs to the key set declared for that splitter: spelling, grammar,
  coherence, style, order, proposed for the corrections splitter; spelling, grammar,
  style, coherence, overall for both evaluation splitters.
\<close>

theorem section_keys_enumerated:
  "dom (correction_sections t)
     \<subseteq> {''spelling'', ''grammar'', ''coherence'', ''style'', ''order'', ''proposed''} \<and>
   dom (parse_evaluation_results t)
     \<subseteq> {''spelling'', ''grammar'', ''style'', ''coherence'', ''overall''} \<and>
   dom (parse_evaluation_results_2 t)
     \<subseteq> {''spelling'', ''grammar'', ''style'', ''coherence'', ''overall''}"
proof -
  have "dom (correction_sections t) = snd ` set sections_to_extract"
    by (simp only: correction_sections_def split_corrections_dom)
  moreover have "dom (parse_evaluation_results t) = snd ` set section_markers"
    by (simp add: parse_evaluation_results_def parse_sections_dom)
  moreover have "dom (parse_evaluation_results_2 t) \<subseteq> snd ` set section_markers"
    using parse_sections_found_dom [of section_markers section_markers t Map.empty]
    by (simp add: parse_evaluation_results_2_def)
  moreover have "snd ` set sections_to_extract
      = {''spelling'', ''grammar'', ''coherence'', ''style'', ''order'', ''proposed''}"
    by (simp add: sections_to_extract_def)
  moreover have "snd ` set section_markers
      = {''spelling'', ''grammar'', ''style'', ''coherence'', ''overall''}"
    by (simp add: section_markers_def)
  ultimately show ?thesis by simp
qed

theorem section_keys_enumerated_witness:
  "dom (correction_sections ''SPELLING CORRECTIONS: none'')
     \<subseteq> {''spelling'', ''grammar'', ''coherence'', ''style'', ''order'', ''proposed''} \<and>
   dom (parse_evaluation_results ''SPELLING CORRECTIONS: none'')
     \<subseteq> {''spelling'', ''grammar'', ''style'', ''coherence'', ''overall''} \<and>
   dom (parse_evaluation_results_2 ''SPELLING CORRECTIONS: none'')
     \<subseteq> {''spelling'', ''grammar'', ''style'', ''coherence'', ''overall''}"
  by (rule section_keys_enumerated)

text \<open>
  Claim C4. Only the first occurrence of a marker is a section boundary. Let a marker
  be found at \<open>p\<close>, let some marker occur again at a position \<open>r\<close> behind the end of
  that occurrence, and let no first occurrence of a marker lie between \<open>p\<close> and \<open>r\<close>.
  Then the section of the marker found at \<open>p\<close> is the trimmed slice of the text from
  the end of its occurrence to an index \<open>e\<close> beyond \<open>r\<close>, where \<open>e\<close> is the end of the
  text or the first occurrence of a marker: the text that follows the repeated
  occurrence belongs to that section. This holds for the three splitters.
\<close>

theorem repeated_marker_is_no_boundary:
  assumes splitter:
      "(ms = sections_to_extract \<and> f = correction_sections) \<or>
       (ms = section_markers \<and> (f = parse_evaluation_results \<or> f = parse_evaluation_results_2))"
    and found: "(m, k) \<in> set ms" "str_find t m = Some p"
    and again: "(m2, k2) \<in> set ms" "str_find t m2 = Some r0" "r0 < r"
               "prefix m2 (drop r t)" "r < length t"
    and after: "p + length m \<le> r"
    and between: "\<forall>q\<in>set (first_positions ms t). q \<le> p \<or> r < q"
  shows "\<exists>e. f t k = Some (strip (slice t (p + length m) e)) \<and> r < e \<and>
             (e = length t \<or> e \<in> set (first_positions ms t))"
proof -
  have beyond: "r < e" if "e = length t \<or> (e \<in> set (first_positions ms t) \<and> p < e)" for e
    using that again(5) between by auto
  from splitter show ?thesis
  proof (elim disjE conjE)
    assume ms: "ms = sections_to_extract" and f: "f = correction_sections"
    let ?e = "next_start ms t p"
    have "f t k = Some (strip (slice t (p + length m) ?e))"
      using found correction_sections_slice unfolding ms f by blast
    moreover have e: "?e = length t \<or> (?e \<in> set (first_positions ms t) \<and> p < ?e)"
      by (rule next_start_cases)
    ultimately show ?thesis using beyond [OF e] by blast
  next
    assume ms: "ms = section_markers" and f: "f = parse_evaluation_results"
    obtain e where cut: "section_text ms t m p = strip (slice t (p + length m) e)"
      and e: "e = length t \<or> (e \<in> set (first_positions ms t) \<and> p + length m < e)"
      using section_text_cut by blast
    have "f t k = Some (section_text ms t m p)"
      using found parse_evaluation_results_found unfolding ms f by blast
    moreover have "e = length t \<or> (e \<in> set (first_positions ms t) \<and> p < e)" using e by auto
    ultimately show ?thesis using beyond cut by auto
  next
    assume ms: "ms = section_markers" and f: "f = parse_evaluation_results_2"
    obtain e where cut: "section_text ms t m p = strip (slice t (p + length m) e)"
      and e: "e = length t \<or> (e \<in> set (first_positions ms t) \<and> p + length m < e)"
      using section_text_cut by blast
    have "f t k = Some (section_text ms t m p)"
      using found parse_evaluation_results_2_found unfolding ms f by blast
    moreover have "e = length t \<or> (e \<in> set (first_positions ms t) \<and> p < e)" using e by auto
    ultimately show ?thesis using beyond cut by auto
  qed
qed

theorem repeated_marker_is_no_boundary_witness:
  "str_find ''SPELLING EVALUATION: a SPELLING EVALUATION: b'' ''SPELLING EVALUATION:'' = Some 0 \<and>
   prefix ''SPELLING EVALUATION:'' (drop 23 ''SPELLING EVALUATION: a SPELLING EVALUATION: b'') \<and>
   (\<exists>e. parse_evaluation_results ''SPELLING EVALUATION: a SPELLING EVALUATION: b'' ''spelling''
          = Some (strip (slice ''SPELLING EVALUATION: a SPELLING EVALUATION: b''
                           (0 + length ''SPELLING EVALUATION:'') e)) \<and>
        23 < e \<and>
        (e = length ''SPELLING EVALUATION: a SPELLING EVALUATION: b'' \<or>
         e \<in> set (first_positions section_markers
                    ''SPELLING EVALUATION: a SPELLING EVALUATION: b'')))"
proof -
  let ?t = "''SPELLING EVALUATION: a SPELLING EVALUATION: b''"
  let ?m = "''SPELLING EVALUATION:''"
  have h1: "(section_markers = sections_to_extract \<and> parse_evaluation_results = correction_sections) \<or>
       (section_markers = section_markers \<and>
          (parse_evaluation_results = parse_evaluation_results \<or>
           parse_evaluation_results = parse_evaluation_results_2))"
    by simp
  have h2: "(?m, ''spelling'') \<in> set section_markers" by (simp add: section_markers_def)
  have h3: "str_find ?t ?m = Some 0" by simp
  have h4: "(0::nat) < 23" by simp
  have h5: "prefix ?m (drop 23 ?t)" by simp
  have h6: "23 < length ?t" by simp
  have h7: "0 + length ?m \<le> 23" by simp
  have h8: "\<forall>q\<in>set (first_positions section_markers ?t). q \<le> 0 \<or> 23 < q"
    by (simp add: first_positions_def section_markers_def)
  show ?thesis
    using repeated_marker_is_no_boundary [OF h1 h2 h3 h2 h3 h4 h5 h6 h7 h8] h3 h5 by blast
qed

subsection \<open>Evaluation on concrete texts\<close>

lemmas eval_defs = parse_evaluation_results_def parse_evaluation_results_2_def section_markers_def
  section_text_def next_markers_def next_indices_def contains_def strip_def slice_def isspace_def

lemmas corr_defs = correction_sections_def split_corrections_def sections_to_extract_def
  strip_def slice_def isspace_def

text \<open>
  Claim C1. A found marker is mapped to the trimmed text between the end of its first
  occurrence and the start of the next found marker. The corrections splitter does so
  (\<open>correction_sections_slice\<close>). The evaluation splitters look for the next marker
  among the indices strictly above \<open>start_idx\<close>, so a marker that starts exactly where
  the previous one ends is not seen as the next one: in the text below the next found
  marker after position 0 starts at 20 and the claimed section is empty, but both
  evaluation splitters return the rest of the text, heading of the next section
  included. The corrections splitter returns the empty section on the same shape.
\<close>

theorem adjacent_marker_not_cut:
  "str_find ''SPELLING EVALUATION:GRAMMAR EVALUATION: ok'' ''SPELLING EVALUATION:'' = Some 0 \<and>
   str_find ''SPELLING EVALUATION:GRAMMAR EVALUATION: ok'' ''GRAMMAR EVALUATION:'' = Some 20 \<and>
   next_start section_markers ''SPELLING EVALUATION:GRAMMAR EVALUATION: ok'' 0 = 20 \<and>
   strip (slice ''SPELLING EVALUATION:GRAMMAR EVALUATION: ok'' (0 + length ''SPELLING EVALUATION:'') 20) = [] \<and>
   parse_evaluation_results ''SPELLING EVALUATION:GRAMMAR EVALUATION: ok'' ''spelling''
     = Some ''GRAMMAR EVALUATION: ok'' \<and>
   parse_evaluation_results_2 ''SPELLING EVALUATION:GRAMMAR EVALUATION: ok'' ''spelling''
     = Some ''GRAMMAR EVALUATION: ok'' \<and>
   correction_sections ''SPELLING CORRECTIONS:GRAMMAR CORRECTIONS: ok'' ''spelling'' = Some []"
proof -
  let ?t = "''SPELLING EVALUATION:GRAMMAR EVALUATION: ok''"
  have 1: "str_find ?t ''SPELLING EVALUATION:'' = Some 0" by simp
  have 2: "str_find ?t ''GRAMMAR EVALUATION:'' = Some 20" by simp
  have 3: "next_start section_markers ?t 0 = 20"
    by (simp add: next_start_def first_positions_def section_markers_def)
  have 4: "strip (slice ?t (0 + length ''SPELLING EVALUATION:'') 20) = []"
    by (simp add: strip_def slice_def)
  have 5: "parse_evaluation_results ?t ''spelling'' = Some ''GRAMMAR EVALUATION: ok''"
    by (simp add: eval_defs)
  have 6: "parse_evaluation_results_2 ?t ''spelling'' = Some ''GRAMMAR EVALUATION: ok''"
    by (simp add: eval_defs)
  have 7: "correction_sections ''SPELLING CORRECTIONS:GRAMMAR CORRECTIONS: ok'' ''spelling'' = Some []"
    by (simp add: corr_defs)
  show ?thesis by (intro conjI 1 2 3 4 5 6 7)
qed

text \<open>
  Claim C3. When markers occur in another order than they are declared, a section ends
  at the next found marker by position in the text. The same comparison with
  \<open>start_idx\<close> breaks this in the evaluation splitters for a text whose markers are out
  of the declared order and adjacent: the section of the marker found at 0 should end at
  19 and be empty, and both evaluation splitters return the following section with its
  heading. The corrections splitter returns the empty section on the same shape.
\<close>

theorem adjacent_marker_out_of_order:
  "str_find ''GRAMMAR EVALUATION:SPELLING EVALUATION: x'' ''GRAMMAR EVALUATION:'' = Some 0 \<and>
   str_find ''GRAMMAR EVALUATION:SPELLING EVALUATION: x'' ''SPELLING EVALUATION:'' = Some 19 \<and>
   next_start section_markers ''GRAMMAR EVALUATION:SPELLING EVALUATION: x'' 0 = 19 \<and>
   strip (slice ''GRAMMAR EVALUATION:SPELLING EVALUATION: x'' (0 + length ''GRAMMAR EVALUATION:'') 19) = [] \<and>
   parse_evaluation_results ''GRAMMAR EVALUATION:SPELLING EVALUATION: x'' ''grammar''
     = Some ''SPELLING EVALUATION: x'' \<and>
   parse_evaluation_results_2 ''GRAMMAR EVALUATION:SPELLING EVALUATION: x'' ''grammar''
     = Some ''SPELLING EVALUATION: x'' \<and>
   correction_sections ''GRAMMAR CORRECTIONS:SPELLING CORRECTIONS: x'' ''grammar'' = Some []"
proof -
  let ?t = "''GRAMMAR EVALUATION:SPELLING EVALUATION: x''"
  have 1: "str_find ?t ''GRAMMAR EVALUATION:'' = Some 0" by simp
  have 2: "str_find ?t ''SPELLING EVALUATION:'' = Some 19" by simp
  have 3: "next_start section_markers ?t 0 = 19"
    by (simp add: next_start_def first_positions_def section_markers_def)
  have 4: "strip (slice ?t (0 + length ''GRAMMAR EVALUATION:'') 19) = []"
    by (simp add: strip_def slice_def)
  have 5: "parse_evaluation_results ?t ''grammar'' = Some ''SPELLING EVALUATION: x''"
    by (simp add: eval_defs)
  have 6: "parse_evaluation_results_2 ?t ''grammar'' = Some ''SPELLING EVALUATION: x''"
    by (simp add: eval_defs)
  have 7: "correction_sections ''GRAMMAR CORRECTIONS:SPELLING CORRECTIONS: x'' ''grammar'' = Some []"
    by (simp add: corr_defs)
  show ?thesis by (intro conjI 1 2 3 4 5 6 7)
qed

text \<open>
  The examples of the specification, run on the loops of the corrections splitter.
\<close>

lemma split_corrections_example:
  "split_corrections [(''A:'', ''A''), (''B:'', ''B''), (''C:'', ''C'')] ''none'' ''A: foo B: bar C: baz''
     = [''A'' \<mapsto> ''foo'', ''B'' \<mapsto> ''bar'', ''C'' \<mapsto> ''baz'']"
  by (rule ext) (simp add: split_corrections_def strip_def slice_def isspace_def)

lemma split_corrections_out_of_order:
  "split_corrections [(''A:'', ''A''), (''B:'', ''B'')] ''none'' ''B: x A: y''
     = [''A'' \<mapsto> ''y'', ''B'' \<mapsto> ''x'']"
  by (rule ext) (simp add: split_corrections_def strip_def slice_def isspace_def)

text \<open>
  Claim C2, as stated, fails for the second evaluation splitter: the key of an absent
  marker is not in its mapping.
\<close>

theorem absent_key_missing_counterexample:
  "(''SPELLING EVALUATION:'', ''spelling'') \<in> set section_markers \<and>
   str_find ''GRAMMAR EVALUATION: fine'' ''SPELLING EVALUATION:'' = None \<and>
   parse_evaluation_results_2 ''GRAMMAR EVALUATION: fine'' ''spelling'' = None"
proof -
  have 1: "(''SPELLING EVALUATION:'', ''spelling'') \<in> set section_markers"
    by (simp add: section_markers_def)
  have 2: "str_find ''GRAMMAR EVALUATION: fine'' ''SPELLING EVALUATION:'' = None" by simp
  have 3: "parse_evaluation_results_2 ''GRAMMAR EVALUATION: fine'' ''spelling'' = None"
    by (simp add: eval_defs)
  show ?thesis by (intro conjI 1 2 3)
qed

text \<open>
  Claim C2, amended. The key of a marker that does not occur in the text is bound to
  the fallback string by the corrections splitter and by the first evaluation splitter,
  and is not in the mapping of the second evaluation splitter. The section of a marker
  that does occur is the one the same splitter computes on the declared list without
  the absent markers.
\<close>

theorem absent_marker_fallback:
  "((m, k) \<in> set sections_to_extract \<and> str_find t m = None \<longrightarrow>
      correction_sections t k = Some ''No corrections needed.'') \<and>
   ((m, k) \<in> set section_markers \<and> str_find t m = None \<longrightarrow>
      parse_evaluation_results t k = Some ''No evaluation available for this section.'' \<and>
      parse_evaluation_results_2 t k = None) \<and>
   ((m, k) \<in> set sections_to_extract \<and> str_find t m \<noteq> None \<longrightarrow>
      correction_sections t k
        = split_corrections (present sections_to_extract t) ''No corrections needed.'' t k) \<and>
   ((m, k) \<in> set section_markers \<and> str_find t m \<noteq> None \<longrightarrow>
      parse_evaluation_results t k
        = parse_sections (present section_markers t) (present section_markers t)
            ''No evaluation available for this section.'' t Map.empty k \<and>
      parse_evaluation_results_2 t k
        = parse_sections_found (present section_markers t) (present section_markers t)
            t Map.empty k)"
proof (intro conjI impI)
  assume "(m, k) \<in> set sections_to_extract \<and> str_find t m = None"
  then show "correction_sections t k = Some ''No corrections needed.''"
    unfolding correction_sections_def
    using split_corrections_absent sections_to_extract_keys by blast
next
  assume a: "(m, k) \<in> set section_markers \<and> str_find t m = None"
  show "parse_evaluation_results t k = Some ''No evaluation available for this section.''"
    unfolding parse_evaluation_results_def
    using parse_sections_apply [OF section_markers_keys, of m k] a by simp
  show "parse_evaluation_results_2 t k = None"
    unfolding parse_evaluation_results_2_def
    using parse_sections_found_apply [OF section_markers_keys, of m k] a by simp
next
  assume "(m, k) \<in> set sections_to_extract \<and> str_find t m \<noteq> None"
  then show "correction_sections t k
        = split_corrections (present sections_to_extract t) ''No corrections needed.'' t k"
    unfolding correction_sections_def using split_corrections_present by blast
next
  assume a: "(m, k) \<in> set section_markers \<and> str_find t m \<noteq> None"
  then obtain p where p: "str_find t m = Some p" by blast
  show "parse_evaluation_results t k
        = parse_sections (present section_markers t) (present section_markers t)
            ''No evaluation available for this section.'' t Map.empty k"
    unfolding parse_evaluation_results_def
    using parse_sections_present [OF section_markers_keys _ p] a by blast
  show "parse_evaluation_results_2 t k
        = parse_sections_found (present section_markers t) (present section_markers t)
            t Map.empty k"
    unfolding parse_evaluation_results_2_def
    using parse_sections_found_present [OF section_markers_keys _ p] a by blast
qed

theorem absent_marker_fallback_witness:
  "correction_sections ''GRAMMAR CORRECTIONS: fine'' ''spelling'' = Some ''No corrections needed.'' \<and>
   parse_evaluation_results ''GRAMMAR EVALUATION: fine'' ''spelling''
     = Some ''No evaluation available for this section.'' \<and>
   parse_evaluation_results_2 ''GRAMMAR EVALUATION: fine'' ''spelling'' = None \<and>
   correction_sections ''GRAMMAR CORRECTIONS: fine'' ''grammar''
     = split_corrections (present sections_to_extract ''GRAMMAR CORRECTIONS: fine'')
         ''No corrections needed.'' ''GRAMMAR CORRECTIONS: fine'' ''grammar'' \<and>
   parse_evaluation_results ''GRAMMAR EVALUATION: fine'' ''grammar''
     = parse_sections (present section_markers ''GRAMMAR EVALUATION: fine'')
         (present section_markers ''GRAMMAR EVALUATION: fine'')
         ''No evaluation available for this section.'' ''GRAMMAR EVALUATION: fine'' Map.empty ''grammar'' \<and>
   parse_evaluation_results_2 ''GRAMMAR EVALUATION: fine'' ''grammar''
     = parse_sections_found (present section_markers ''GRAMMAR EVALUATION: fine'')
         (present section_markers ''GRAMMAR EVALUATION: fine'')
         ''GRAMMAR EVALUATION: fine'' Map.empty ''grammar''"
proof -
  have c1: "(''SPELLING CORRECTIONS:'', ''spelling'') \<in> set sections_to_extract"
    and c2: "(''GRAMMAR CORRECTIONS:'', ''grammar'') \<in> set sections_to_extract"
    by (simp_all add: sections_to_extract_def)
  have e1: "(''SPELLING EVALUATION:'', ''spelling'') \<in> set section_markers"
    and e2: "(''GRAMMAR EVALUATION:'', ''grammar'') \<in> set section_markers"
    by (simp_all add: section_markers_def)
  have a1: "str_find ''GRAMMAR CORRECTIONS: fine'' ''SPELLING CORRECTIONS:'' = None" by simp
  have a2: "str_find ''GRAMMAR CORRECTIONS: fine'' ''GRAMMAR CORRECTIONS:'' \<noteq> None" by simp
  have a3: "str_find ''GRAMMAR EVALUATION: fine'' ''SPELLING EVALUATION:'' = None" by simp
  have a4: "str_find ''GRAMMAR EVALUATION: fine'' ''GRAMMAR EVALUATION:'' \<noteq> None" by simp
  note A = absent_marker_fallback
    [of "''SPELLING CORRECTIONS:''" "''spelling''" "''GRAMMAR CORRECTIONS: fine''"]
  note B = absent_marker_fallback
    [of "''SPELLING EVALUATION:''" "''spelling''" "''GRAMMAR EVALUATION: fine''"]
  note C = absent_marker_fallback
    [of "''GRAMMAR CORRECTIONS:''" "''grammar''" "''GRAMMAR CORRECTIONS: fine''"]
  note D = absent_marker_fallback
    [of "''GRAMMAR EVALUATION:''" "''grammar''" "''GRAMMAR EVALUATION: fine''"]
  note w1 = A [THEN conjunct1, THEN mp, OF conjI [OF c1 a1]]
  note w2 = B [THEN conjunct2, THEN conjunct1, THEN mp, OF conjI [OF e1 a3]]
  note w3 = C [THEN conjunct2, THEN conjunct2, THEN conjunct1, THEN mp, OF conjI [OF c2 a2]]
  note w4 = D [THEN conjunct2, THEN conjunct2, THEN conjunct2, THEN mp, OF conjI [OF e2 a4]]
  show ?thesis
    by (intro conjI w1 w3 conjunct1 [OF w2] conjunct2 [OF w2] conjunct1 [OF w4] conjunct2 [OF w4])
qed

text \<open>
  Claim C5, as stated, fails for the second evaluation splitter: on the empty text its
  mapping has no key at all.
\<close>

theorem empty_text_no_keys_counterexample:
  "(''OVERALL EVALUATION:'', ''overall'') \<in> set section_markers \<and>
   parse_evaluation_results_2 [] ''overall'' = None \<and>
   dom (parse_evaluation_results_2 []) = {}"
proof -
  have 1: "(''OVERALL EVALUATION:'', ''overall'') \<in> set section_markers"
    by (simp add: section_markers_def)
  have 2: "parse_evaluation_results_2 [] = Map.empty"
    by (simp add: parse_evaluation_results_2_def section_markers_def)
  show ?thesis using 1 by (simp add: 2)
qed

lemma markers_not_empty:
  "(m, k) \<in> set sections_to_extract \<or> (m, k) \<in> set section_markers \<Longrightarrow> m \<noteq> []"
  by (auto simp: sections_to_extract_def section_markers_def)

text \<open>
  Claim C5, amended. On the empty text the corrections splitter and the first
  evaluation splitter bind every declared key, and no other, to the fallback string;
  the second evaluation splitter returns the empty mapping.
\<close>

theorem empty_text_sections:
  "(k \<in> snd ` set sections_to_extract \<longrightarrow>
      correction_sections [] k = Some ''No corrections needed.'') \<and>
   dom (correction_sections []) = snd ` set sections_to_extract \<and>
   (k \<in> snd ` set section_markers \<longrightarrow>
      parse_evaluation_results [] k = Some ''No evaluation available for this section.'') \<and>
   dom (parse_evaluation_results []) = snd ` set section_markers \<and>
   parse_evaluation_results_2 [] = Map.empty"
proof (intro conjI impI)
  assume "k \<in> snd ` set sections_to_extract"
  then obtain m where m: "(m, k) \<in> set sections_to_extract" by force
  then have "m \<noteq> []" using markers_not_empty by blast
  then have "str_find [] m = None" by simp
  then show "correction_sections [] k = Some ''No corrections needed.''"
    unfolding correction_sections_def
    using split_corrections_absent [OF m _ sections_to_extract_keys] by blast
next
  show "dom (correction_sections []) = snd ` set sections_to_extract"
    by (simp only: correction_sections_def split_corrections_dom)
next
  assume "k \<in> snd ` set section_markers"
  then obtain m where m: "(m, k) \<in> set section_markers" by force
  then have "m \<noteq> []" using markers_not_empty by blast
  then have "str_find [] m = None" by simp
  then show "parse_evaluation_results [] k = Some ''No evaluation available for this section.''"
    unfolding parse_evaluation_results_def
    using parse_sections_apply [OF section_markers_keys m] by simp
next
  show "dom (parse_evaluation_results []) = snd ` set section_markers"
    by (simp add: parse_evaluation_results_def parse_sections_dom)
next
  show "parse_evaluation_results_2 [] = Map.empty"
    by (simp add: parse_evaluation_results_2_def section_markers_def)
qed

theorem empty_text_sections_witness:
  "correction_sections [] ''proposed'' = Some ''No corrections needed.'' \<and>
   parse_evaluation_results [] ''overall'' = Some ''No evaluation available for this section.'' \<and>
   parse_evaluation_results_2 [] = Map.empty"
proof -
  have 1: "''proposed'' \<in> snd ` set sections_to_extract" by (simp add: sections_to_extract_def)
  have 2: "''overall'' \<in> snd ` set section_markers" by (simp add: section_markers_def)
  note A = empty_text_sections [of "''proposed''"]
  note B = empty_text_sections [of "''overall''"]
  note w1 = A [THEN conjunct1, THEN mp, OF 1]
  note w2 = B [THEN conjunct2, THEN conjunct2, THEN conjunct1, THEN mp, OF 2]
  note w3 = A [THEN conjunct2, THEN conjunct2, THEN conjunct2, THEN conjunct2]
  show ?thesis by (intro conjI w1 w2 w3)
qed

section \<open>The inference adapter\<close>

subsection \<open>Values returned by the extraction\<close>

lemma subvalues_self: "v \<in> set (subvalues v)"
  by (cases v) simp_all

lemma subvalues_trans:
  "x \<in> set (subvalues y) \<Longrightarrow> set (subvalues x) \<subseteq> set (subvalues y)"
proof (induction y rule: subvalues.induct)
  case (1 xs)
  then show ?case by fastforce
next
  case (2 kvs)
  then show ?case by fastforce
qed simp_all

lemma subvalues_dict:
  assumes "map_of kvs key = Some v"
  shows "v \<in> set (subvalues (JDict kvs))"
proof -
  have "(key, v) \<in> set kvs" using assms by (rule map_of_SomeD)
  then show ?thesis using subvalues_self [of v] by force
qed

lemma subvalues_first: "x \<in> set (subvalues (JList (x # xs)))"
  using subvalues_self [of x] by simp

lemma py_get_value:
  assumes "py_get obj key dflt = Inr v"
  shows "v = dflt \<or> v \<in> set (subvalues obj)"
  using assms subvalues_dict
  by (cases obj) (auto simp: py_get_def split: option.splits)

lemma py_item0_value:
  assumes "py_item0 obj = Inr x"
  shows "is_str x \<or> x \<in> set (subvalues obj)"
  using assms subvalues_self by (induction obj rule: py_item0.induct) auto

lemma py_getitem_value:
  assumes "py_getitem obj key = Inr v"
  shows "v \<in> set (subvalues obj)"
  using assms subvalues_dict
  by (induction obj key rule: py_getitem.induct) (auto split: option.splits)


lemma first_field_value:
  assumes "bind_exc (py_get r k1 (JList [JDict []])) (\<lambda>c.
           bind_exc (py_item0 c) (\<lambda>x. py_get x k2 (JStr d))) = Inr v"
  shows "is_str v \<or> v \<in> set (subvalues r)"
proof -
  from assms obtain c x where c: "py_get r k1 (JList [JDict []]) = Inr c"
    and x: "py_item0 c = Inr x" and v: "py_get x k2 (JStr d) = Inr v"
    by (auto simp: bind_exc_def split: sum.splits)
  show ?thesis
  proof (cases "c = JList [JDict []]")
    case True
    then have "x = JDict []" using x by simp
    then have "v = JStr d" using v by (simp add: py_get_def)
    then show ?thesis by simp
  next
    case False
    then have cr: "c \<in> set (subvalues r)" using py_get_value [OF c] by blast
    from py_item0_value [OF x] show ?thesis
    proof
      assume "is_str x"
      then obtain s where "x = JStr s" by (cases x) simp_all
      then show ?thesis using v by (simp add: py_get_def)
    next
      assume "x \<in> set (subvalues c)"
      then have xr: "x \<in> set (subvalues r)" using cr subvalues_trans by blast
      from py_get_value [OF v] show ?thesis
      proof
        assume "v = JStr d" then show ?thesis by simp
      next
        assume "v \<in> set (subvalues x)"
        then show ?thesis using xr subvalues_trans by blast
      qed
    qed
  qed
qed

lemma extract_response_value:
  assumes "extract_response env mid r = Inr v"
  shows "is_str v \<or> v \<in> set (subvalues r)"
proof (cases "contains (lower mid) ''claude'' \<or> contains (lower mid) ''titan''")
  case True
  then show ?thesis
    using assms first_field_value unfolding extract_response_def
    by (auto split: if_splits)
next
  case False
  then have "bind_exc (py_in ''generated_text'' r) (\<lambda>g.
        if g then py_getitem r ''generated_text''
        else bind_exc (py_in ''completion'' r) (\<lambda>c.
          if c then py_getitem r ''completion''
          else Inr (JStr (''Response received but format unknown: '' @ dumps_indent env r)))) = Inr v"
    using assms unfolding extract_response_def by simp
  then show ?thesis
    using py_getitem_value
    by (auto simp: bind_exc_def split: sum.splits if_splits)
qed

text \<open>
  Claim C9. When the runtime client is \<^verbatim>\<open>None\<close>, or the model identifier is
  \<^verbatim>\<open>None\<close> or the empty string, the adapter returns the fixed warning string and
  invokes no model (the list of invocations is empty; the request body is built only
  for an invocation).
\<close>

theorem no_client_or_model_warning:
  assumes "bedrock_runtime = None \<or> model_id = None \<or> model_id = Some []"
  shows "call_bedrock_model env bedrock_runtime prompt model_id = (JStr not_available, [])"
  using assms by (auto simp: call_bedrock_model_def split: option.splits)

text \<open>
  With a client and a non-empty model identifier there is exactly one invocation, with
  the serialised request body, and the value returned is what the handler makes of the
  outcome.
\<close>

lemma call_invokes_once:
  assumes "mid \<noteq> []"
  shows "snd (call_bedrock_model env (Some invoke_model) prompt (Some mid))
           = [(mid, dumps env (request_body prompt mid))]"
  using assms by (simp add: call_bedrock_model_def Let_def)

lemma call_result:
  assumes "mid \<noteq> []"
  shows "fst (call_bedrock_model env (Some invoke_model) prompt (Some mid))
           = (case bind_exc (invoke_model mid (dumps env (request_body prompt mid)))
                     (extract_response env mid) of
                Inl e \<Rightarrow> JStr (error_calling_model env e)
              | Inr v \<Rightarrow> v)"
  using assms by (simp add: call_bedrock_model_def Let_def)

text \<open>
  Claim C7, amended. The function raises no exception: every exception raised by the
  invocation, the decoding or the extraction becomes the diagnostic string of the
  handler. The value returned is a string, or else it is a value that the response of
  the service holds, returned as it is.
\<close>

theorem call_returns_string_or_response_value:
  "(is_str (fst (call_bedrock_model env rt prompt model_id)) \<or>
    (\<exists>invoke_model mid r.
        rt = Some invoke_model \<and> model_id = Some mid \<and>
        invoke_model mid (dumps env (request_body prompt mid)) = Inr r \<and>
        fst (call_bedrock_model env rt prompt model_id) \<in> set (subvalues r))) \<and>
   (rt = Some invoke_model \<and> model_id = Some mid \<and> mid \<noteq> [] \<and>
    bind_exc (invoke_model mid (dumps env (request_body prompt mid)))
      (extract_response env mid) = Inl e \<longrightarrow>
    fst (call_bedrock_model env rt prompt model_id) = JStr (error_calling_model env e))"
proof (intro conjI impI)
  show "is_str (fst (call_bedrock_model env rt prompt model_id)) \<or>
    (\<exists>invoke_model mid r.
        rt = Some invoke_model \<and> model_id = Some mid \<and>
        invoke_model mid (dumps env (request_body prompt mid)) = Inr r \<and>
        fst (call_bedrock_model env rt prompt model_id) \<in> set (subvalues r))"
  proof (cases "rt = None \<or> model_id = None \<or> model_id = Some []")
    case True
    then have "call_bedrock_model env rt prompt model_id = (JStr not_available, [])"
      by (auto simp: call_bedrock_model_def split: option.splits)
    then show ?thesis by simp
  next
    case False
    then obtain im mid where rt: "rt = Some im" and mid: "model_id = Some mid" "mid \<noteq> []"
      by auto
    let ?out = "bind_exc (im mid (dumps env (request_body prompt mid))) (extract_response env mid)"
    have res: "fst (call_bedrock_model env rt prompt model_id)
                 = (case ?out of Inl e \<Rightarrow> JStr (error_calling_model env e) | Inr v \<Rightarrow> v)"
      unfolding rt mid(1) using mid(2) by (rule call_result)
    show ?thesis
    proof (cases ?out)
      case (Inl e)
      then show ?thesis using res by simp
    next
      case (Inr v)
      then obtain r where r: "im mid (dumps env (request_body prompt mid)) = Inr r"
        and v: "extract_response env mid r = Inr v"
        by (auto simp: bind_exc_def split: sum.splits)
      from extract_response_value [OF v] show ?thesis
      proof
        assume "is_str v" then show ?thesis using res Inr by simp
      next
        assume "v \<in> set (subvalues r)"
        then show ?thesis using res Inr r rt mid(1) by auto
      qed
    qed
  qed
next
  assume a: "rt = Some invoke_model \<and> model_id = Some mid \<and> mid \<noteq> [] \<and>
    bind_exc (invoke_model mid (dumps env (request_body prompt mid)))
      (extract_response env mid) = Inl e"
  then show "fst (call_bedrock_model env rt prompt model_id) = JStr (error_calling_model env e)"
    using call_result [of mid env invoke_model prompt] by simp
qed


theorem no_client_or_model_warning_witness:
  "call_bedrock_model sample_env None ''hello'' (Some ''anthropic.claude-v2'')
     = (JStr not_available, []) \<and>
   call_bedrock_model sample_env (Some (replies JNull)) ''hello'' None
     = (JStr not_available, []) \<and>
   call_bedrock_model sample_env (Some (replies JNull)) ''hello'' (Some [])
     = (JStr not_available, [])"
proof (intro conjI)
  show "call_bedrock_model sample_env None ''hello'' (Some ''anthropic.claude-v2'')
          = (JStr not_available, [])"
    by (rule no_client_or_model_warning) simp
  show "call_bedrock_model sample_env (Some (replies JNull)) ''hello'' None
          = (JStr not_available, [])"
    by (rule no_client_or_model_warning) simp
  show "call_bedrock_model sample_env (Some (replies JNull)) ''hello'' (Some [])
          = (JStr not_available, [])"
    by (rule no_client_or_model_warning) simp
qed

text \<open>
  Claim C7, as stated, fails: when the response holds a number in the field that is
  read, the function returns the number, not a string.
\<close>

theorem non_string_result_counterexample:
  "fst (call_bedrock_model sample_env
          (Some (replies (JDict [(''content'', JList [JDict [(''text'', JInt 7)]])])))
          ''hello'' (Some ''anthropic.claude-v2'')) = JInt 7 \<and>
   \<not> is_str (JInt 7)"
proof -
  have c: "contains (lower ''anthropic.claude-v2'') ''claude''" by code_simp
  have "fst (call_bedrock_model sample_env
          (Some (replies (JDict [(''content'', JList [JDict [(''text'', JInt 7)]])])))
          ''hello'' (Some ''anthropic.claude-v2'')) = JInt 7"
    by (simp add: call_result replies_def bind_exc_def extract_response_def c py_get_def)
  then show ?thesis by simp
qed

theorem call_returns_string_or_response_value_witness:
  "fst (call_bedrock_model sample_env (Some (fails (Raised ''AccessDeniedException'')))
          ''hello'' (Some ''anthropic.claude-v2''))
     = JStr (error_calling_model sample_env (Raised ''AccessDeniedException'')) \<and>
   fst (call_bedrock_model sample_env (Some (replies (JDict [(''content'', JList [])])))
          ''hello'' (Some ''anthropic.claude-v2''))
     = JStr (error_calling_model sample_env IndexError)"
proof (intro conjI)
  have c: "contains (lower ''anthropic.claude-v2'') ''claude''" by code_simp
  have h1: "Some (fails (Raised ''AccessDeniedException'')) = Some (fails (Raised ''AccessDeniedException''))
      \<and> Some ''anthropic.claude-v2'' = Some ''anthropic.claude-v2'' \<and> ''anthropic.claude-v2'' \<noteq> [] \<and>
      bind_exc (fails (Raised ''AccessDeniedException'') ''anthropic.claude-v2''
                 (dumps sample_env (request_body ''hello'' ''anthropic.claude-v2'')))
        (extract_response sample_env ''anthropic.claude-v2'') = Inl (Raised ''AccessDeniedException'')"
    by (simp add: fails_def bind_exc_def)
  show "fst (call_bedrock_model sample_env (Some (fails (Raised ''AccessDeniedException'')))
          ''hello'' (Some ''anthropic.claude-v2''))
     = JStr (error_calling_model sample_env (Raised ''AccessDeniedException''))"
    by (rule call_returns_string_or_response_value [THEN conjunct2, THEN mp, OF h1])
  have h2: "Some (replies (JDict [(''content'', JList [])])) = Some (replies (JDict [(''content'', JList [])]))
      \<and> Some ''anthropic.claude-v2'' = Some ''anthropic.claude-v2'' \<and> ''anthropic.claude-v2'' \<noteq> [] \<and>
      bind_exc (replies (JDict [(''content'', JList [])]) ''anthropic.claude-v2''
                 (dumps sample_env (request_body ''hello'' ''anthropic.claude-v2'')))
        (extract_response sample_env ''anthropic.claude-v2'') = Inl IndexError"
    by (simp add: replies_def bind_exc_def extract_response_def c py_get_def)
  show "fst (call_bedrock_model sample_env (Some (replies (JDict [(''content'', JList [])])))
          ''hello'' (Some ''anthropic.claude-v2''))
     = JStr (error_calling_model sample_env IndexError)"
    by (rule call_returns_string_or_response_value [THEN conjunct2, THEN mp, OF h2])
qed

text \<open>
  Claim C10. Whichever of the four request bodies is built, it caps the output at 2000
  tokens: field \<open>max_tokens\<close> for claude, \<open>maxTokenCount\<close> (inside
  \<open>textGenerationConfig\<close>) for titan, \<open>max_gen_len\<close> for llama, \<open>max_tokens\<close> for any
  other identifier; and that body, serialised, is what the model is invoked with.
\<close>

theorem request_body_caps_2000:
  "(contains (lower mid) ''claude'' \<longrightarrow>
      py_get (request_body prompt mid) ''max_tokens'' JNull = Inr (JInt 2000)) \<and>
   (\<not> contains (lower mid) ''claude'' \<and> contains (lower mid) ''titan'' \<longrightarrow>
      bind_exc (py_get (request_body prompt mid) ''textGenerationConfig'' JNull)
        (\<lambda>cfg. py_get cfg ''maxTokenCount'' JNull) = Inr (JInt 2000)) \<and>
   (\<not> contains (lower mid) ''claude'' \<and> \<not> contains (lower mid) ''titan'' \<and>
    contains (lower mid) ''llama'' \<longrightarrow>
      py_get (request_body prompt mid) ''max_gen_len'' JNull = Inr (JInt 2000)) \<and>
   (\<not> contains (lower mid) ''claude'' \<and> \<not> contains (lower mid) ''titan'' \<and>
    \<not> contains (lower mid) ''llama'' \<longrightarrow>
      py_get (request_body prompt mid) ''max_tokens'' JNull = Inr (JInt 2000)) \<and>
   (mid \<noteq> [] \<longrightarrow>
      snd (call_bedrock_model env (Some invoke_model) prompt (Some mid))
        = [(mid, dumps env (request_body prompt mid))])"
  by (simp add: request_body_def py_get_def bind_exc_def call_invokes_once)

theorem request_body_caps_2000_witness:
  "py_get (request_body ''hello'' ''anthropic.claude-v2'') ''max_tokens'' JNull = Inr (JInt 2000) \<and>
   bind_exc (py_get (request_body ''hello'' ''amazon.titan-text-express-v1'') ''textGenerationConfig'' JNull)
     (\<lambda>cfg. py_get cfg ''maxTokenCount'' JNull) = Inr (JInt 2000) \<and>
   py_get (request_body ''hello'' ''meta.llama2-13b-chat-v1'') ''max_gen_len'' JNull = Inr (JInt 2000) \<and>
   py_get (request_body ''hello'' ''ai21.j2-ultra-v1'') ''max_tokens'' JNull = Inr (JInt 2000) \<and>
   snd (call_bedrock_model sample_env (Some (replies JNull)) ''hello'' (Some ''ai21.j2-ultra-v1''))
     = [(''ai21.j2-ultra-v1'', dumps sample_env (request_body ''hello'' ''ai21.j2-ultra-v1''))]"
proof -
  have c: "contains (lower ''anthropic.claude-v2'') ''claude''" by code_simp
  have t: "\<not> contains (lower ''amazon.titan-text-express-v1'') ''claude'' \<and>
           contains (lower ''amazon.titan-text-express-v1'') ''titan''" by code_simp
  have l: "\<not> contains (lower ''meta.llama2-13b-chat-v1'') ''claude'' \<and>
           \<not> contains (lower ''meta.llama2-13b-chat-v1'') ''titan'' \<and>
           contains (lower ''meta.llama2-13b-chat-v1'') ''llama''" by code_simp
  have g: "\<not> contains (lower ''ai21.j2-ultra-v1'') ''claude'' \<and>
           \<not> contains (lower ''ai21.j2-ultra-v1'') ''titan'' \<and>
           \<not> contains (lower ''ai21.j2-ultra-v1'') ''llama''" by code_simp
  have n: "''ai21.j2-ultra-v1'' \<noteq> []" by simp
  note A = request_body_caps_2000 [where mid = "''anthropic.claude-v2''" and prompt = "''hello''"]
  note B = request_body_caps_2000 [where mid = "''amazon.titan-text-express-v1''" and prompt = "''hello''"]
  note C = request_body_caps_2000 [where mid = "''meta.llama2-13b-chat-v1''" and prompt = "''hello''"]
  note D = request_body_caps_2000 [where mid = "''ai21.j2-ultra-v1''" and prompt = "''hello''"
      and env = sample_env and invoke_model = "replies JNull"]
  note w1 = A [THEN conjunct1, THEN mp, OF c]
  note w2 = B [THEN conjunct2, THEN conjunct1, THEN mp, OF t]
  note w3 = C [THEN conjunct2, THEN conjunct2, THEN conjunct1, THEN mp, OF l]
  note w4 = D [THEN conjunct2, THEN conjunct2, THEN conjunct2, THEN conjunct1, THEN mp, OF g]
  note w5 = D [THEN conjunct2, THEN conjunct2, THEN conjunct2, THEN conjunct2, THEN mp, OF n]
  show ?thesis by (intro conjI w1 w2 w3 w4 w5)
qed


text \<open>
  Claim C6. The shape of the request body and the field read from the response are
  selected by a substring test on the lower-cased model identifier, in the order claude,
  titan, llama. An identifier that contains \<open>claude\<close> gets the anthropic messages body
  and the value of \<open>content[0].text\<close>; one that contains \<open>titan\<close> (and not \<open>claude\<close>)
  gets the \<open>inputText\<close> body and the value of \<open>results[0].outputText\<close>; one that
  contains none of the three names gets the body of \<open>prompt\<close> and \<open>max_tokens\<close>, and
  from a response object the value of \<open>generated_text\<close>, else that of \<open>completion\<close>,
  else a dump of the whole response.
\<close>

theorem family_dispatch:
  assumes "mid \<noteq> []"
    and "invoke_model mid (dumps env (request_body prompt mid)) = Inr r"
  shows
  "(contains (lower mid) ''claude'' \<longrightarrow>
      request_body prompt mid =
        JDict [(''anthropic_version'', JStr ''bedrock-2023-05-31''),
               (''max_tokens'', JInt 2000),
               (''messages'', JList [JDict [(''role'', JStr ''user''), (''content'', JStr prompt)]])] \<and>
      (r = JDict d \<and> map_of d ''content'' = Some (JList (JDict e # rest)) \<and>
       map_of e ''text'' = Some v \<longrightarrow>
         fst (call_bedrock_model env (Some invoke_model) prompt (Some mid)) = v)) \<and>
   (\<not> contains (lower mid) ''claude'' \<and> contains (lower mid) ''titan'' \<longrightarrow>
      request_body prompt mid =
        JDict [(''inputText'', JStr prompt),
               (''textGenerationConfig'',
                  JDict [(''maxTokenCount'', JInt 2000),
                         (''temperature'', JFloat 7 (- 1)),
                         (''topP'', JFloat 9 (- 1))])] \<and>
      (r = JDict d \<and> map_of d ''results'' = Some (JList (JDict e # rest)) \<and>
       map_of e ''outputText'' = Some v \<longrightarrow>
         fst (call_bedrock_model env (Some invoke_model) prompt (Some mid)) = v)) \<and>
   (\<not> contains (lower mid) ''claude'' \<and> \<not> contains (lower mid) ''titan'' \<and>
    \<not> contains (lower mid) ''llama'' \<longrightarrow>
      request_body prompt mid = JDict [(''prompt'', JStr prompt), (''max_tokens'', JInt 2000)] \<and>
      (r = JDict d \<longrightarrow>
         fst (call_bedrock_model env (Some invoke_model) prompt (Some mid)) =
           (case map_of d ''generated_text'' of
              Some g \<Rightarrow> g
            | None \<Rightarrow>
                (case map_of d ''completion'' of
                   Some c \<Rightarrow> c
                 | None \<Rightarrow> JStr (''Response received but format unknown: '' @
                                  dumps_indent env r)))))"
proof -
  note res = call_result [OF assms(1), of env invoke_model prompt, unfolded assms(2)]
  have claude: "fst (call_bedrock_model env (Some invoke_model) prompt (Some mid)) = v"
    if "contains (lower mid) ''claude''" "r = JDict d"
       "map_of d ''content'' = Some (JList (JDict e # rest))" "map_of e ''text'' = Some v"
    using that by (simp add: res bind_exc_def extract_response_def py_get_def)
  have titan: "fst (call_bedrock_model env (Some invoke_model) prompt (Some mid)) = v"
    if "\<not> contains (lower mid) ''claude''" "contains (lower mid) ''titan''" "r = JDict d"
       "map_of d ''results'' = Some (JList (JDict e # rest))" "map_of e ''outputText'' = Some v"
    using that by (simp add: res bind_exc_def extract_response_def py_get_def)
  have generic: "fst (call_bedrock_model env (Some invoke_model) prompt (Some mid)) =
           (case map_of d ''generated_text'' of
              Some g \<Rightarrow> g
            | None \<Rightarrow>
                (case map_of d ''completion'' of
                   Some c \<Rightarrow> c
                 | None \<Rightarrow> JStr (''Response received but format unknown: '' @
                                  dumps_indent env r)))"
    if "\<not> contains (lower mid) ''claude''" "\<not> contains (lower mid) ''titan''" "r = JDict d"
    using that by (simp add: res bind_exc_def extract_response_def split: option.splits)
  show ?thesis
    using claude titan generic by (simp add: request_body_def)
qed

theorem family_dispatch_witness:
  "fst (call_bedrock_model sample_env
          (Some (replies (JDict [(''content'', JList [JDict [(''text'', JStr ''Hi there'')]])])))
          ''hello'' (Some ''Anthropic.CLAUDE-v2'')) = JStr ''Hi there'' \<and>
   fst (call_bedrock_model sample_env
          (Some (replies (JDict [(''results'', JList [JDict [(''outputText'', JStr ''Hi there'')]])])))
          ''hello'' (Some ''amazon.titan-text-express-v1'')) = JStr ''Hi there'' \<and>
   request_body ''hello'' ''ai21.j2-ultra-v1''
     = JDict [(''prompt'', JStr ''hello''), (''max_tokens'', JInt 2000)] \<and>
   fst (call_bedrock_model sample_env (Some (replies (JDict [(''completion'', JStr ''Hi there'')])))
          ''hello'' (Some ''ai21.j2-ultra-v1'')) = JStr ''Hi there''"
proof -
  have c: "contains (lower ''Anthropic.CLAUDE-v2'') ''claude''" by code_simp
  have t: "\<not> contains (lower ''amazon.titan-text-express-v1'') ''claude'' \<and>
           contains (lower ''amazon.titan-text-express-v1'') ''titan''" by code_simp
  have g: "\<not> contains (lower ''ai21.j2-ultra-v1'') ''claude'' \<and>
           \<not> contains (lower ''ai21.j2-ultra-v1'') ''titan'' \<and>
           \<not> contains (lower ''ai21.j2-ultra-v1'') ''llama''" by code_simp
  note A = family_dispatch [where mid = "''Anthropic.CLAUDE-v2''" and prompt = "''hello''"
      and env = sample_env
      and invoke_model = "replies (JDict [(''content'', JList [JDict [(''text'', JStr ''Hi there'')]])])"
      and r = "JDict [(''content'', JList [JDict [(''text'', JStr ''Hi there'')]])]"
      and d = "[(''content'', JList [JDict [(''text'', JStr ''Hi there'')]])]"
      and e = "[(''text'', JStr ''Hi there'')]" and rest = "[]" and v = "JStr ''Hi there''"]
  note B = family_dispatch [where mid = "''amazon.titan-text-express-v1''" and prompt = "''hello''"
      and env = sample_env
      and invoke_model = "replies (JDict [(''results'', JList [JDict [(''outputText'', JStr ''Hi there'')]])])"
      and r = "JDict [(''results'', JList [JDict [(''outputText'', JStr ''Hi there'')]])]"
      and d = "[(''results'', JList [JDict [(''outputText'', JStr ''Hi there'')]])]"
      and e = "[(''outputText'', JStr ''Hi there'')]" and rest = "[]" and v = "JStr ''Hi there''"]
  note C = family_dispatch [where mid = "''ai21.j2-ultra-v1''" and prompt = "''hello''"
      and env = sample_env
      and invoke_model = "replies (JDict [(''completion'', JStr ''Hi there'')])"
      and r = "JDict [(''completion'', JStr ''Hi there'')]"
      and d = "[(''completion'', JStr ''Hi there'')]"]
  have w1: "fst (call_bedrock_model sample_env
          (Some (replies (JDict [(''content'', JList [JDict [(''text'', JStr ''Hi there'')]])])))
          ''hello'' (Some ''Anthropic.CLAUDE-v2'')) = JStr ''Hi there''"
    using A c by (simp add: replies_def)
  have w2: "fst (call_bedrock_model sample_env
          (Some (replies (JDict [(''results'', JList [JDict [(''outputText'', JStr ''Hi there'')]])])))
          ''hello'' (Some ''amazon.titan-text-express-v1'')) = JStr ''Hi there''"
    using B t by (simp add: replies_def)
  have w3: "request_body ''hello'' ''ai21.j2-ultra-v1''
     = JDict [(''prompt'', JStr ''hello''), (''max_tokens'', JInt 2000)] \<and>
   fst (call_bedrock_model sample_env (Some (replies (JDict [(''completion'', JStr ''Hi there'')])))
          ''hello'' (Some ''ai21.j2-ultra-v1'')) = JStr ''Hi there''"
    using C g by (simp add: replies_def)
  show ?thesis by (intro conjI w1 w2 conjunct1 [OF w3] conjunct2 [OF w3])
qed

end
